theory Spec2Isabelle
  imports Main "HOL-Library.Word"
begin

unbundle bit_operations_syntax

section \<open>The enumerations of the parser header\<close>

subsection \<open>Error\<close>

text \<open>
  \<^verbatim>\<open>enum class Error : uint64_t\<close>. A C++ enumeration may give two enumerators the same
  value, so the datatype lists the enumerator names and \<open>to_underlying_Error\<close> gives
  the value each one is declared with.
\<close>

datatype Error =
    None_Error
  | InvalidPath
  | MissingExtensions
  | UnknownRequiredExtension
  | InvalidJson
  | InvalidGltf
  | InvalidOrMissingAssetField
  | InvalidGLB
  | MissingField
  | MissingExternalBuffer
  | UnsupportedVersion

fun to_underlying_Error :: "Error \<Rightarrow> 64 word" where
  "to_underlying_Error None_Error = 0"
| "to_underlying_Error InvalidPath = 1"
| "to_underlying_Error MissingExtensions = 2"
| "to_underlying_Error UnknownRequiredExtension = 3"
| "to_underlying_Error InvalidJson = 4"
| "to_underlying_Error InvalidGltf = 5"
| "to_underlying_Error InvalidOrMissingAssetField = 6"
| "to_underlying_Error InvalidGLB = 6"
| "to_underlying_Error MissingField = 7"
| "to_underlying_Error MissingExternalBuffer = 8"
| "to_underlying_Error UnsupportedVersion = 9"

subsection \<open>Category\<close>

text \<open>
  \<^verbatim>\<open>enum class Category : uint32_t\<close>. Every enumerator but \<open>None\<close> and \<open>All\<close> is
  declared as a literal \<^verbatim>\<open>1 << k\<close> joined by \<^verbatim>\<open>|\<close> with enumerators declared before
  it; \<open>Skins\<close> also joins the raw literal \<^verbatim>\<open>1 << 11\<close>.
\<close>

datatype Category =
    None_Category
  | Buffers
  | BufferViews
  | Accessors
  | Images
  | Samplers
  | Textures
  | Animations
  | Cameras
  | Materials
  | Meshes
  | Skins
  | Nodes
  | Scenes
  | Asset
  | All_Category

text \<open>The position of an enumerator in the declaration: an enumerator only refers to
  earlier ones.\<close>

fun declaration_order :: "Category \<Rightarrow> nat" where
  "declaration_order None_Category = 0"
| "declaration_order Buffers = 1"
| "declaration_order BufferViews = 2"
| "declaration_order Accessors = 3"
| "declaration_order Images = 4"
| "declaration_order Samplers = 5"
| "declaration_order Textures = 6"
| "declaration_order Animations = 7"
| "declaration_order Cameras = 8"
| "declaration_order Materials = 9"
| "declaration_order Meshes = 10"
| "declaration_order Skins = 11"
| "declaration_order Nodes = 12"
| "declaration_order Scenes = 13"
| "declaration_order Asset = 14"
| "declaration_order All_Category = 15"

function to_underlying_Category :: "Category \<Rightarrow> 32 word" where
  "to_underlying_Category None_Category = 0"
| "to_underlying_Category Buffers = push_bit 0 1"
| "to_underlying_Category BufferViews = push_bit 1 1 OR to_underlying_Category Buffers"
| "to_underlying_Category Accessors = push_bit 2 1 OR to_underlying_Category BufferViews"
| "to_underlying_Category Images = push_bit 3 1 OR to_underlying_Category BufferViews"
| "to_underlying_Category Samplers = push_bit 4 1"
| "to_underlying_Category Textures =
     push_bit 5 1 OR to_underlying_Category Images OR to_underlying_Category Samplers"
| "to_underlying_Category Animations = push_bit 6 1 OR to_underlying_Category Accessors"
| "to_underlying_Category Cameras = push_bit 7 1"
| "to_underlying_Category Materials = push_bit 8 1 OR to_underlying_Category Textures"
| "to_underlying_Category Meshes =
     push_bit 9 1 OR to_underlying_Category Accessors OR to_underlying_Category Materials"
| "to_underlying_Category Skins =
     push_bit 10 1 OR to_underlying_Category Accessors OR push_bit 11 1"
| "to_underlying_Category Nodes =
     push_bit 11 1 OR to_underlying_Category Cameras OR to_underlying_Category Meshes
       OR to_underlying_Category Skins"
| "to_underlying_Category Scenes = push_bit 12 1 OR to_underlying_Category Nodes"
| "to_underlying_Category Asset = push_bit 13 1"
| "to_underlying_Category All_Category =
     to_underlying_Category Asset OR to_underlying_Category Scenes
       OR to_underlying_Category Animations"
  by pat_completeness auto
termination
  by (relation "measure declaration_order") auto

text \<open>The literal \<^verbatim>\<open>1 << k\<close> that opens an enumerator's initialiser: the bit that tells
  the category from every other one. \<open>None\<close> and \<open>All\<close> have no such literal.\<close>

fun flag_bit :: "Category \<Rightarrow> 32 word" where
  "flag_bit None_Category = 0"
| "flag_bit Buffers = push_bit 0 1"
| "flag_bit BufferViews = push_bit 1 1"
| "flag_bit Accessors = push_bit 2 1"
| "flag_bit Images = push_bit 3 1"
| "flag_bit Samplers = push_bit 4 1"
| "flag_bit Textures = push_bit 5 1"
| "flag_bit Animations = push_bit 6 1"
| "flag_bit Cameras = push_bit 7 1"
| "flag_bit Materials = push_bit 8 1"
| "flag_bit Meshes = push_bit 9 1"
| "flag_bit Skins = push_bit 10 1"
| "flag_bit Nodes = push_bit 11 1"
| "flag_bit Scenes = push_bit 12 1"
| "flag_bit Asset = push_bit 13 1"
| "flag_bit All_Category = 0"

text \<open>\<^verbatim>\<open>operator&\<close> and \<^verbatim>\<open>operator|\<close> of the header work on the underlying values.\<close>

definition Category_and :: "Category \<Rightarrow> Category \<Rightarrow> 32 word" where
  "Category_and a b = to_underlying_Category a AND to_underlying_Category b"

definition Category_or :: "Category \<Rightarrow> Category \<Rightarrow> 32 word" where
  "Category_or a b = to_underlying_Category a OR to_underlying_Category b"

section \<open>Base64 decoding\<close>

subsection \<open>Bytes, sizes and checked memory accesses\<close>

text \<open>
  \<^verbatim>\<open>uint8_t\<close> and the \<^verbatim>\<open>char\<close>s of a \<^verbatim>\<open>std::string_view\<close> are bytes. A string
  literal of the source is read through \<open>bytes_of\<close>.
\<close>

type_synonym byte = "8 word"

definition bytes_of :: "string \<Rightarrow> byte list" where
  "bytes_of s = map of_char s"

text \<open>
  \<^verbatim>\<open>size_t\<close> is an unsigned 64-bit integer: a natural number, with the wrap-around of
  every operation of the source written out.
\<close>

definition size_t_of_int :: "int \<Rightarrow> nat" where
  "size_t_of_int k = nat (k mod 2 ^ 64)"

definition size_t_add :: "nat \<Rightarrow> nat \<Rightarrow> nat" where
  "size_t_add a b = size_t_of_int (int a + int b)"

definition size_t_sub :: "nat \<Rightarrow> nat \<Rightarrow> nat" where
  "size_t_sub a b = size_t_of_int (int a - int b)"

text \<open>
  An access outside a vector or a string is undefined behaviour in C++; the model
  returns it as a fault. A \<^verbatim>\<open>std::vector\<close> has a \<^verbatim>\<open>size_t\<close> size, so no index
  from \<open>2 ^ 64 - 1\<close> on is ever inside one.
\<close>

datatype fault = OutOfBounds

definition vector_at :: "byte list \<Rightarrow> nat \<Rightarrow> fault + byte" where
  "vector_at v i = (if i < length v \<and> length v < 2 ^ 64 then Inr (v ! i) else Inl OutOfBounds)"

text \<open>\<^verbatim>\<open>std::memcpy(input.data(), encoded.data(), encodedSize)\<close> into a vector.\<close>

definition memcpy :: "byte list \<Rightarrow> byte list \<Rightarrow> fault + byte list" where
  "memcpy dst src =
     (if length src \<le> length dst then Inr (src @ drop (length src) dst) else Inl OutOfBounds)"

text \<open>An unaligned load of \<open>w\<close> bytes at \<^verbatim>\<open>&input[pos]\<close>, and an unaligned store of a
  register at \<^verbatim>\<open>out\<close>.\<close>

definition loadu :: "nat \<Rightarrow> byte list \<Rightarrow> nat \<Rightarrow> fault + byte list" where
  "loadu w v pos =
     (if pos + w \<le> length v \<and> length v < 2 ^ 64 then Inr (take w (drop pos v))
      else Inl OutOfBounds)"

definition storeu :: "byte list \<Rightarrow> nat \<Rightarrow> byte list \<Rightarrow> fault + byte list" where
  "storeu v out reg =
     (if out + length reg \<le> length v then Inr (take out v @ reg @ drop (out + length reg) v)
      else Inl OutOfBounds)"

text \<open>\<^verbatim>\<open>ret.resize(k)\<close>: cut to \<open>k\<close> elements, or fill up with zeros.\<close>

definition resize :: "byte list \<Rightarrow> nat \<Rightarrow> byte list" where
  "resize v k = take k v @ replicate (k - length v) 0"

subsection \<open>Single-precision arithmetic of the output size\<close>

text \<open>
  \<^verbatim>\<open>std::floor(static_cast<float>(n) * 0.75f)\<close>. A finite non-negative binary32 value is
  a pair \<open>(m, e)\<close> that stands for \<open>m * 2 ^ e\<close>, with \<open>m\<close> of at most 24 bits. Every
  operation rounds its exact result to the nearest such value, ties to the even
  significand. The values met here lie between 0 and \<open>2 ^ 64\<close>, far from the
  subnormal and the overflow range.
\<close>

fun bit_length :: "nat \<Rightarrow> nat" where
  "bit_length n = (if n = 0 then 0 else Suc (bit_length (n div 2)))"

declare bit_length.simps [simp del]

definition round_float :: "nat \<Rightarrow> int \<Rightarrow> nat \<times> int" where
  "round_float m e =
     (let s = bit_length m - 24 in
      if s = 0 then (m, e)
      else
        let q = m div 2 ^ s; r = m mod 2 ^ s; half = 2 ^ (s - 1) in
        (if half < r \<or> (r = half \<and> odd q) then q + 1 else q, e + int s))"

definition float_of_size_t :: "nat \<Rightarrow> nat \<times> int" where
  "float_of_size_t n = round_float n 0"

definition float_mult :: "nat \<times> int \<Rightarrow> nat \<times> int \<Rightarrow> nat \<times> int" where
  "float_mult a b = round_float (fst a * fst b) (snd a + snd b)"

text \<open>\<^verbatim>\<open>0.75f\<close> is \<open>3 * 2 ^ -2\<close>, exactly.\<close>

definition float_075 :: "nat \<times> int" where
  "float_075 = (3, - 2)"

text \<open>\<^verbatim>\<open>std::floor\<close>, converted to the \<^verbatim>\<open>size_t\<close> that \<^verbatim>\<open>resize\<close> takes.\<close>

definition float_floor :: "nat \<times> int \<Rightarrow> nat" where
  "float_floor a =
     (if 0 \<le> snd a then fst a * 2 ^ nat (snd a) else fst a div 2 ^ nat (- snd a))"

definition decoded_size :: "nat \<Rightarrow> nat" where
  "decoded_size diff = float_floor (float_mult (float_of_size_t diff) float_075)"

subsection \<open>The vector instructions\<close>

text \<open>
  A vector register is the list of its bytes in memory order: 32 bytes for
  \<^verbatim>\<open>__m256i\<close>, 16 for \<^verbatim>\<open>__m128i\<close>. The 16-bit and 32-bit lanes of a register are
  little-endian. The lane-wise instructions are the same at both widths, so one
  definition serves \<^verbatim>\<open>_mm_*\<close> and \<^verbatim>\<open>_mm256_*\<close>.
\<close>

definition le16 :: "byte \<Rightarrow> byte \<Rightarrow> 16 word" where
  "le16 b0 b1 = ucast b0 OR push_bit 8 (ucast b1)"

definition le32 :: "byte \<Rightarrow> byte \<Rightarrow> byte \<Rightarrow> byte \<Rightarrow> 32 word" where
  "le32 b0 b1 b2 b3 =
     ucast b0 OR push_bit 8 (ucast b1) OR push_bit 16 (ucast b2) OR push_bit 24 (ucast b3)"

definition bytes16 :: "16 word \<Rightarrow> byte list" where
  "bytes16 w = [ucast w, ucast (drop_bit 8 w)]"

definition bytes32 :: "32 word \<Rightarrow> byte list" where
  "bytes32 w = [ucast w, ucast (drop_bit 8 w), ucast (drop_bit 16 w), ucast (drop_bit 24 w)]"

definition set1_epi8 :: "nat \<Rightarrow> byte \<Rightarrow> byte list" where
  "set1_epi8 lanes x = replicate lanes x"

definition set1_epi32 :: "nat \<Rightarrow> 32 word \<Rightarrow> byte list" where
  "set1_epi32 lanes x = concat (replicate lanes (bytes32 x))"

definition and_si :: "byte list \<Rightarrow> byte list \<Rightarrow> byte list" where
  "and_si a b = map2 (AND) a b"

definition add_epi8 :: "byte list \<Rightarrow> byte list \<Rightarrow> byte list" where
  "add_epi8 a b = map2 (+) a b"

definition cmpeq_epi8 :: "byte list \<Rightarrow> byte list \<Rightarrow> byte list" where
  "cmpeq_epi8 a b = map2 (\<lambda>x y. if x = y then 0xFF else 0) a b"

text \<open>\<^verbatim>\<open>blendv_epi8(a, b, mask)\<close> takes the byte of \<open>b\<close> where the top bit of the mask
  byte is set.\<close>

definition blendv_epi8 :: "byte list \<Rightarrow> byte list \<Rightarrow> byte list \<Rightarrow> byte list" where
  "blendv_epi8 a b msk = map (\<lambda>(x, y, m). if bit m 7 then y else x) (zip a (zip b msk))"

text \<open>A logical right shift of every 32-bit lane.\<close>

fun srli_epi32 :: "byte list \<Rightarrow> nat \<Rightarrow> byte list" where
  "srli_epi32 (b0 # b1 # b2 # b3 # bs) k =
     bytes32 (drop_bit k (le32 b0 b1 b2 b3)) @ srli_epi32 bs k"
| "srli_epi32 _ k = []"

text \<open>\<^verbatim>\<open>_mm_shuffle_epi8(a, b)\<close>: byte \<open>i\<close> of the result is 0 when the top bit of
  \<open>b[i]\<close> is set, else the byte of \<open>a\<close> that the low four bits of \<open>b[i]\<close> select. The
  256-bit instruction shuffles each 128-bit half on its own.\<close>

definition mm_shuffle_epi8 :: "byte list \<Rightarrow> byte list \<Rightarrow> byte list" where
  "mm_shuffle_epi8 a b = map (\<lambda>s. if bit s 7 then 0 else a ! unat (s AND 0x0F)) b"

definition mm256_shuffle_epi8 :: "byte list \<Rightarrow> byte list \<Rightarrow> byte list" where
  "mm256_shuffle_epi8 a b =
     mm_shuffle_epi8 (take 16 a) (take 16 b) @ mm_shuffle_epi8 (drop 16 a) (drop 16 b)"

definition extracti128 :: "byte list \<Rightarrow> nat \<Rightarrow> byte list" where
  "extracti128 a k = take 16 (drop (16 * k) a)"

definition saturate16 :: "int \<Rightarrow> 16 word" where
  "saturate16 x = word_of_int (max (- 32768) (min 32767 x))"

text \<open>\<^verbatim>\<open>maddubs_epi16(a, b)\<close>: the unsigned bytes of \<open>a\<close> times the signed bytes of
  \<open>b\<close>, adjacent products added with signed saturation into 16-bit lanes.\<close>

fun maddubs_epi16 :: "byte list \<Rightarrow> byte list \<Rightarrow> byte list" where
  "maddubs_epi16 (a0 # a1 # as) (b0 # b1 # bs) =
     bytes16 (saturate16 (uint a0 * sint b0 + uint a1 * sint b1)) @ maddubs_epi16 as bs"
| "maddubs_epi16 _ _ = []"

text \<open>\<^verbatim>\<open>madd_epi16(a, b)\<close>: the signed 16-bit lanes multiplied, adjacent products added
  into 32-bit lanes.\<close>

fun madd_epi16 :: "byte list \<Rightarrow> byte list \<Rightarrow> byte list" where
  "madd_epi16 (a0 # a1 # a2 # a3 # as) (b0 # b1 # b2 # b3 # bs) =
     bytes32 (word_of_int (sint (le16 a0 a1) * sint (le16 b0 b1)
                           + sint (le16 a2 a3) * sint (le16 b2 b3)))
       @ madd_epi16 as bs"
| "madd_epi16 _ _ = []"

subsection \<open>The 256-bit decoder\<close>

definition lookup_pshufb_bitmask :: "byte list \<Rightarrow> byte list" where
  "lookup_pshufb_bitmask input =
     (let higher_nibble = and_si (srli_epi32 input 4) (set1_epi8 32 0x0f);
          shiftLUT = [0, 0, 19, 4, - 65, - 65, - 71, - 71,
                      0, 0, 0, 0, 0, 0, 0, 0,
                      0, 0, 19, 4, - 65, - 65, - 71, - 71,
                      0, 0, 0, 0, 0, 0, 0, 0];
          sh = mm256_shuffle_epi8 shiftLUT higher_nibble;
          eq_2f = cmpeq_epi8 input (set1_epi8 32 0x2f);
          shift = blendv_epi8 sh (set1_epi8 32 16) eq_2f
      in add_epi8 input shift)"

definition pack_ints :: "byte list \<Rightarrow> byte list" where
  "pack_ints input =
     (let merge = maddubs_epi16 input (set1_epi32 8 0x01400140)
      in madd_epi16 merge (set1_epi32 8 0x00011000))"

text \<open>
  The search for the padding, the same loop in both vector decoders:
  \<^verbatim>\<open>for (auto i = encodedSize - 1; i >= (encodedSize - 3); --i)\<close> over \<^verbatim>\<open>size_t\<close>, so both
  bounds and the decrement wrap around. \<open>padding\<close> stays below 2 ^ 64.
\<close>

function padding_loop :: "byte list \<Rightarrow> nat \<Rightarrow> nat \<Rightarrow> nat \<Rightarrow> fault + nat" where
  "padding_loop input encodedSize i padding =
     (if size_t_sub encodedSize 3 \<le> i then
        (case vector_at input i of
           Inl e \<Rightarrow> Inl e
         | Inr c \<Rightarrow>
             if c = of_char CHR ''=''
             then padding_loop input encodedSize (size_t_sub i 1) (padding + 1)
             else Inr padding)
      else Inr padding)"
  by pat_completeness auto
termination
proof (relation "measure (\<lambda>(input, encodedSize, i, padding).
                   if i < length input \<and> length input < 2 ^ 64 then Suc i else 0)")
  show "wf (measure (\<lambda>(input, encodedSize, i, padding).
                   if i < length input \<and> length input < 2 ^ 64 then Suc i else 0))"
    by simp
next
  fix input :: "byte list" and encodedSize i padding :: nat and c :: byte
  assume "vector_at input i = Inr c"
  then have inside: "i < length input" "length input < 2 ^ 64"
    by (auto simp: vector_at_def split: if_splits)
  have "size_t_sub i 1 = (if i = 0 then 2 ^ 64 - 1 else i - 1)"
    using inside by (auto simp: size_t_sub_def size_t_of_int_def nat_diff_distrib' int_ops)
  with inside
  show "((input, encodedSize, size_t_sub i 1, padding + 1), (input, encodedSize, i, padding))
          \<in> measure (\<lambda>(input, encodedSize, i, padding).
                   if i < length input \<and> length input < 2 ^ 64 then Suc i else 0)"
    by auto
qed

text \<open>
  The block loop \<^verbatim>\<open>for (size_t pos = 0; pos < length; pos += dataSetSize)\<close>; \<open>out\<close> is
  the offset of the output pointer into \<open>ret\<close>.
\<close>

definition avx2_shuf :: "byte list" where
  "avx2_shuf = [2, 1, 0, 6, 5, 4, 10, 9, 8, 14, 13, 12, 0xff, 0xff, 0xff, 0xff,
                2, 1, 0, 6, 5, 4, 10, 9, 8, 14, 13, 12, 0xff, 0xff, 0xff, 0xff]"

function avx2_loop :: "byte list \<Rightarrow> nat \<Rightarrow> nat \<Rightarrow> byte list \<Rightarrow> fault + byte list" where
  "avx2_loop input pos out ret =
     (if pos < length input then
        (case loadu 32 input pos of
           Inl e \<Rightarrow> Inl e
         | Inr in256 \<Rightarrow>
             let values = lookup_pshufb_bitmask in256;
                 merged = pack_ints values;
                 shuffled = mm256_shuffle_epi8 merged avx2_shuf
             in (case storeu ret out (extracti128 shuffled 0) of
                   Inl e \<Rightarrow> Inl e
                 | Inr ret1 \<Rightarrow>
                     (case storeu ret1 (out + 12) (extracti128 shuffled 1) of
                        Inl e \<Rightarrow> Inl e
                      | Inr ret2 \<Rightarrow> avx2_loop input (size_t_add pos 32) (out + 24) ret2)))
      else Inr ret)"
  by pat_completeness auto
termination
proof (relation "measure (\<lambda>(input, pos, out, ret). length input - pos)")
  show "wf (measure (\<lambda>(input, pos, out, ret). length input - pos))"
    by simp
next
  fix input ret in256 ret1 ret2 :: "byte list" and pos out :: nat
  assume "pos < length input" and "loadu 32 input pos = Inr in256"
  then have "pos + 32 \<le> length input" "length input < 2 ^ 64"
    by (auto simp: loadu_def split: if_splits)
  then have "size_t_add pos 32 = pos + 32"
    by (simp add: size_t_add_def size_t_of_int_def nat_add_distrib)
  with \<open>pos < length input\<close>
  show "((input, size_t_add pos 32, out + 24, ret2), (input, pos, out, ret))
          \<in> measure (\<lambda>(input, pos, out, ret). length input - pos)"
    by simp
qed

definition avx2_decode :: "byte list \<Rightarrow> fault + byte list" where
  "avx2_decode encoded =
     (let encodedSize = length encoded;
          size = size_t_sub (size_t_add encodedSize 32) 1 AND size_t_of_int (- 32)
      in case memcpy (replicate size 0) encoded of
           Inl e \<Rightarrow> Inl e
         | Inr input \<Rightarrow>
             (case padding_loop input encodedSize (size_t_sub encodedSize 1) 0 of
                Inl e \<Rightarrow> Inl e
              | Inr padding \<Rightarrow>
                  (case avx2_loop input 0 0 (replicate (length input) 0) of
                     Inl e \<Rightarrow> Inl e
                   | Inr ret \<Rightarrow>
                       Inr (resize ret (decoded_size (size_t_sub encodedSize padding))))))"

subsection \<open>The 128-bit decoder\<close>

definition sse4_lookup_pshufb_bitmask :: "byte list \<Rightarrow> byte list" where
  "sse4_lookup_pshufb_bitmask input =
     (let higher_nibble = and_si (srli_epi32 input 4) (set1_epi8 16 0x0f);
          shiftLUT = [0, 0, 19, 4, - 65, - 65, - 71, - 71,
                      0, 0, 0, 0, 0, 0, 0, 0];
          sh = mm_shuffle_epi8 shiftLUT higher_nibble;
          eq_2f = cmpeq_epi8 input (set1_epi8 16 0x2f);
          shift = blendv_epi8 sh (set1_epi8 16 16) eq_2f
      in add_epi8 input shift)"

definition sse4_pack_ints :: "byte list \<Rightarrow> byte list" where
  "sse4_pack_ints input =
     (let merge = maddubs_epi16 input (set1_epi32 4 0x01400140)
      in madd_epi16 merge (set1_epi32 4 0x00011000))"

definition sse4_shuf :: "byte list" where
  "sse4_shuf = [2, 1, 0, 6, 5, 4, 10, 9, 8, 14, 13, 12, 0xff, 0xff, 0xff, 0xff]"

function sse4_loop :: "byte list \<Rightarrow> nat \<Rightarrow> nat \<Rightarrow> byte list \<Rightarrow> fault + byte list" where
  "sse4_loop input pos out ret =
     (if pos < length input then
        (case loadu 16 input pos of
           Inl e \<Rightarrow> Inl e
         | Inr in128 \<Rightarrow>
             let values = sse4_lookup_pshufb_bitmask in128;
                 merged = sse4_pack_ints values;
                 shuffled = mm_shuffle_epi8 merged sse4_shuf
             in (case storeu ret out shuffled of
                   Inl e \<Rightarrow> Inl e
                 | Inr ret1 \<Rightarrow> sse4_loop input (size_t_add pos 16) (out + 12) ret1))
      else Inr ret)"
  by pat_completeness auto
termination
proof (relation "measure (\<lambda>(input, pos, out, ret). length input - pos)")
  show "wf (measure (\<lambda>(input, pos, out, ret). length input - pos))"
    by simp
next
  fix input ret in128 ret1 :: "byte list" and pos out :: nat
  assume "pos < length input" and "loadu 16 input pos = Inr in128"
  then have "pos + 16 \<le> length input" "length input < 2 ^ 64"
    by (auto simp: loadu_def split: if_splits)
  then have "size_t_add pos 16 = pos + 16"
    by (simp add: size_t_add_def size_t_of_int_def nat_add_distrib)
  with \<open>pos < length input\<close>
  show "((input, size_t_add pos 16, out + 12, ret1), (input, pos, out, ret))
          \<in> measure (\<lambda>(input, pos, out, ret). length input - pos)"
    by simp
qed

definition sse4_decode :: "byte list \<Rightarrow> fault + byte list" where
  "sse4_decode encoded =
     (let encodedSize = length encoded;
          size = size_t_sub (size_t_add encodedSize 16) 1 AND size_t_of_int (- 16)
      in case memcpy (replicate size 0) encoded of
           Inl e \<Rightarrow> Inl e
         | Inr input \<Rightarrow>
             (case padding_loop input encodedSize (size_t_sub encodedSize 1) 0 of
                Inl e \<Rightarrow> Inl e
              | Inr padding \<Rightarrow>
                  (case sse4_loop input 0 0 (replicate (length input) 0) of
                     Inl e \<Rightarrow> Inl e
                   | Inr ret \<Rightarrow>
                       Inr (resize ret (decoded_size (size_t_sub encodedSize padding))))))"

subsection \<open>The scalar decoder\<close>

definition base64_chars :: "byte list" where
  "base64_chars = bytes_of
     ''ABCDEFGHIJKLMNOPQRSTUVWXYZabcdefghijklmnopqrstuvwxyz0123456789+/''"

text \<open>\<^verbatim>\<open>std::string::find(char)\<close>: the index of the first occurrence, or \<^verbatim>\<open>npos\<close>, the
  largest \<^verbatim>\<open>size_t\<close>.\<close>

definition npos :: nat where
  "npos = 2 ^ 64 - 1"

fun find_from :: "byte list \<Rightarrow> byte \<Rightarrow> nat \<Rightarrow> nat" where
  "find_from [] c k = npos"
| "find_from (x # xs) c k = (if x = c then k else find_from xs c (k + 1))"

definition string_find :: "byte list \<Rightarrow> byte \<Rightarrow> nat" where
  "string_find s c = find_from s c 0"

text \<open>\<^verbatim>\<open>sixBitChars[j] = base64_chars.find(...)\<close> for the four entries: the \<^verbatim>\<open>size_t\<close>
  that \<open>find\<close> returns is cut to a byte, so \<open>npos\<close> becomes 255.\<close>

definition find_all :: "byte list \<Rightarrow> byte list" where
  "find_all sixBitChars = map (\<lambda>c. of_nat (string_find base64_chars c)) sixBitChars"

text \<open>
  The three packing assignments. The operands are promoted to \<^verbatim>\<open>int\<close> (32 bits; every
  value is non-negative and below \<open>2 ^ 11\<close>) and the sum is cut to a byte by the
  assignment.
\<close>

definition promote :: "byte \<Rightarrow> 32 word" where
  "promote b = ucast b"

definition eightBitChars_of :: "byte list \<Rightarrow> byte list" where
  "eightBitChars_of sixBitChars =
     [ucast (push_bit 2 (promote (sixBitChars ! 0))
               + drop_bit 4 (promote (sixBitChars ! 1) AND 0x30)),
      ucast (push_bit 4 (promote (sixBitChars ! 1) AND 0xf)
               + drop_bit 2 (promote (sixBitChars ! 2) AND 0x3c)),
      ucast (push_bit 6 (promote (sixBitChars ! 2) AND 0x3)
               + promote (sixBitChars ! 3))]"

text \<open>An unchecked \<^verbatim>\<open>encoded[pos]\<close> of the string view.\<close>

definition string_view_at :: "byte list \<Rightarrow> nat \<Rightarrow> fault + byte" where
  "string_view_at s pos = (if pos < length s then Inr (s ! pos) else Inl OutOfBounds)"

text \<open>
  \<^verbatim>\<open>while (in_len-- && (encoded[pos] != '='))\<close>. The state is \<open>in_len\<close>, \<open>pos\<close>, the
  count \<open>i\<close> of characters waiting in \<open>sixBitChars\<close> (always below 4 where it is used
  as an index) and the output \<open>ret\<close>; the loop hands \<open>i\<close>, \<open>sixBitChars\<close> and \<open>ret\<close> to
  the code after it. \<open>in_len\<close> is not read after the loop, so its last decrement is
  left out.
\<close>

function fallback_loop ::
  "byte list \<Rightarrow> nat \<Rightarrow> nat \<Rightarrow> nat \<Rightarrow> byte list \<Rightarrow> byte list
     \<Rightarrow> fault + (nat \<times> byte list \<times> byte list)" where
  "fallback_loop encoded in_len pos i sixBitChars ret =
     (if in_len = 0 then Inr (i, sixBitChars, ret)
      else
        (case string_view_at encoded pos of
           Inl e \<Rightarrow> Inl e
         | Inr c \<Rightarrow>
             if c = of_char CHR ''='' then Inr (i, sixBitChars, ret)
             else
               let sixBitChars1 = sixBitChars[i := c];
                   i1 = i + 1;
                   pos1 = pos + 1
               in if i1 = 4
                  then
                    let sixBitChars2 = find_all sixBitChars1;
                        eightBitChars = eightBitChars_of sixBitChars2
                    in fallback_loop encoded (in_len - 1) pos1 0 sixBitChars2
                         (ret @ eightBitChars)
                  else fallback_loop encoded (in_len - 1) pos1 i1 sixBitChars1 ret))"
  by pat_completeness auto
termination
  by (relation "measure (\<lambda>(encoded, in_len, pos, i, sixBitChars, ret). in_len)") auto

text \<open>The code after the loop: a group of \<open>i\<close> waiting characters gives \<open>i - 1\<close> bytes.\<close>

definition fallback_flush :: "nat \<Rightarrow> byte list \<Rightarrow> byte list \<Rightarrow> byte list" where
  "fallback_flush i sixBitChars ret =
     (if i \<noteq> 0 then
        let sixBitChars1 = fold (\<lambda>j s. s[j := 0]) [i..<4] sixBitChars;
            sixBitChars2 = find_all sixBitChars1;
            eightBitChars = eightBitChars_of sixBitChars2
        in ret @ take (i - 1) eightBitChars
      else ret)"

definition fallback_decode :: "byte list \<Rightarrow> fault + byte list" where
  "fallback_decode encoded =
     (case fallback_loop encoded (length encoded) 0 0 [0, 0, 0, 0] [] of
        Inl e \<Rightarrow> Inl e
      | Inr (i, sixBitChars, ret) \<Rightarrow> Inr (fallback_flush i sixBitChars ret))"

subsection \<open>The dispatch\<close>

text \<open>
  \<^verbatim>\<open>simdjson::get_available_implementations()[name]\<close> is a pointer to an implementation,
  \<open>None\<close> when it is null, and \<^verbatim>\<open>supported_by_runtime_system()\<close> of an implementation
  is a flag of the machine: both are parameters of the model.
\<close>

definition decode :: "bool option \<Rightarrow> bool option \<Rightarrow> byte list \<Rightarrow> fault + byte list" where
  "decode avx2 sse4 encoded =
     (if avx2 \<noteq> None \<and> the avx2 then avx2_decode encoded
      else if sse4 \<noteq> None \<and> the sse4 then sse4_decode encoded
      else fallback_decode encoded)"

subsection \<open>Reference notions the properties are stated with\<close>

text \<open>
  A reference encoder (RFC 4648, with padding) over the alphabet of the source. It is
  not code of the repository: the round-trip property is stated against it.
\<close>

definition alphabet_char :: "byte \<Rightarrow> byte" where
  "alphabet_char v = base64_chars ! unat v"

fun reference_encode :: "byte list \<Rightarrow> byte list" where
  "reference_encode [] = []"
| "reference_encode [a] =
     [alphabet_char (drop_bit 2 a),
      alphabet_char (push_bit 4 (a AND 0x3)),
      of_char CHR ''='', of_char CHR ''='']"
| "reference_encode [a, b] =
     [alphabet_char (drop_bit 2 a),
      alphabet_char (push_bit 4 (a AND 0x3) OR drop_bit 4 b),
      alphabet_char (push_bit 2 (b AND 0xf)),
      of_char CHR ''='']"
| "reference_encode (a # b # c # bs) =
     [alphabet_char (drop_bit 2 a),
      alphabet_char (push_bit 4 (a AND 0x3) OR drop_bit 4 b),
      alphabet_char (push_bit 2 (b AND 0xf) OR drop_bit 6 c),
      alphabet_char (c AND 0x3f)] @ reference_encode bs"

text \<open>The number of \<open>=\<close> characters at the end of a string.\<close>

definition trailing_padding :: "byte list \<Rightarrow> nat" where
  "trailing_padding encoded = length (takeWhile (\<lambda>c. c = of_char CHR ''='') (rev encoded))"

text \<open>
  A valid base64 string: whole groups of four characters, at most two \<open>=\<close> at the
  end, and before them characters of the alphabet only.
\<close>

definition valid_base64 :: "byte list \<Rightarrow> bool" where
  "valid_base64 encoded =
     (length encoded mod 4 = 0 \<and> trailing_padding encoded \<le> 2
      \<and> list_all (\<lambda>c. c \<in> set base64_chars)
            (take (length encoded - trailing_padding encoded) encoded))"

text \<open>
  The last character before the padding carries bits that belong to no output byte:
  two of them before one \<open>=\<close>, four before two. A reference encoder leaves them zero.
  The predicate says that they are not all ones.
\<close>

definition spare_bits_not_all_set :: "byte list \<Rightarrow> bool" where
  "spare_bits_not_all_set encoded =
     (let p = trailing_padding encoded;
          v = string_find base64_chars (encoded ! (length encoded - p - 1))
      in if p = 1 then v mod 4 \<noteq> 3 else if p = 2 then v mod 16 \<noteq> 15 else True)"

subsection \<open>What the vector code computes, byte by byte\<close>

text \<open>
  Closed forms of the register computations, used to reason about blocks of any
  content: the value the lookup gives one byte, and the three bytes the packing and
  the shuffle give one group of four.
\<close>

definition lookup_value :: "byte \<Rightarrow> byte" where
  "lookup_value c =
     c + (if c = 0x2f then 16
          else [0, 0, 19, 4, - 65, - 65, - 71, - 71, 0, 0, 0, 0, 0, 0, 0, 0] ! unat (drop_bit 4 c))"

definition quad_value :: "byte \<Rightarrow> byte \<Rightarrow> byte \<Rightarrow> byte \<Rightarrow> nat" where
  "quad_value v0 v1 v2 v3 = (unat v0 * 64 + unat v1) * 4096 + (unat v2 * 64 + unat v3)"

definition quad_bytes :: "nat \<Rightarrow> byte list" where
  "quad_bytes n = [of_nat (n div 65536), of_nat (n div 256), of_nat n]"

fun simd_quads :: "byte list \<Rightarrow> byte list" where
  "simd_quads (c0 # c1 # c2 # c3 # cs) =
     quad_bytes (quad_value (lookup_value c0) (lookup_value c1) (lookup_value c2)
                            (lookup_value c3))
       @ simd_quads cs"
| "simd_quads _ = []"

text \<open>The 32-bit lanes the two multiply-and-add steps leave, group by group.\<close>

fun packed_quads :: "byte list \<Rightarrow> byte list" where
  "packed_quads (v0 # v1 # v2 # v3 # vs) =
     bytes32 (of_nat (quad_value v0 v1 v2 v3)) @ packed_quads vs"
| "packed_quads _ = []"

text \<open>The loop equations unfold without end on symbolic arguments: they are used
  one step at a time.\<close>

declare padding_loop.simps [simp del]
declare avx2_loop.simps [simp del]
declare sse4_loop.simps [simp del]
declare fallback_loop.simps [simp del]

text \<open>
  What both vector decoders return on an input of four characters or more whose
  output size the single-precision arithmetic computes exactly: the input filled up
  with zero bytes to whole groups, decoded group by group, and cut to three quarters
  of the length without the trailing \<open>=\<close> (of which the search counts at most three).
\<close>

definition pad_to_quads :: "byte list \<Rightarrow> byte list" where
  "pad_to_quads encoded = encoded @ replicate ((4 - length encoded mod 4) mod 4) 0"

definition counted_padding :: "byte list \<Rightarrow> nat" where
  "counted_padding encoded = min 3 (trailing_padding encoded)"

definition simd_decoded :: "byte list \<Rightarrow> byte list" where
  "simd_decoded encoded =
     take (3 * (length encoded - counted_padding encoded) div 4)
          (simd_quads (pad_to_quads encoded))"

subsection \<open>What the scalar code computes, group by group\<close>

text \<open>The byte that the table lookup leaves for one character.\<close>

definition sextet :: "byte \<Rightarrow> byte" where
  "sextet c = of_nat (string_find base64_chars c)"

text \<open>The scalar loop, as a recursion over the characters it has not read yet.\<close>

fun scalar_loop ::
  "byte list \<Rightarrow> nat \<Rightarrow> byte list \<Rightarrow> byte list \<Rightarrow> nat \<times> byte list \<times> byte list" where
  "scalar_loop [] i sixBitChars ret = (i, sixBitChars, ret)"
| "scalar_loop (c # cs) i sixBitChars ret =
     (if c = of_char CHR ''='' then (i, sixBitChars, ret)
      else if i + 1 = 4
           then scalar_loop cs 0 (find_all (sixBitChars[i := c]))
                  (ret @ eightBitChars_of (find_all (sixBitChars[i := c])))
           else scalar_loop cs (i + 1) (sixBitChars[i := c]) ret)"

text \<open>The bytes of whole groups of four characters.\<close>

fun scalar_quads :: "byte list \<Rightarrow> byte list" where
  "scalar_quads (c0 # c1 # c2 # c3 # cs) =
     eightBitChars_of [sextet c0, sextet c1, sextet c2, sextet c3] @ scalar_quads cs"
| "scalar_quads _ = []"

section \<open>The values of the Category enumerators\<close>

lemma Category_values:
  "to_underlying_Category Buffers = 1"
  "to_underlying_Category BufferViews = 3"
  "to_underlying_Category Accessors = 7"
  "to_underlying_Category Images = 11"
  "to_underlying_Category Samplers = 16"
  "to_underlying_Category Textures = 59"
  "to_underlying_Category Animations = 71"
  "to_underlying_Category Cameras = 128"
  "to_underlying_Category Materials = 315"
  "to_underlying_Category Meshes = 831"
  "to_underlying_Category Skins = 3079"
  "to_underlying_Category Nodes = 4031"
  "to_underlying_Category Scenes = 8127"
  "to_underlying_Category Asset = 8192"
  "to_underlying_Category All_Category = 16383"
  by simp_all

text \<open>
  C8. In the Error enumeration \<open>InvalidOrMissingAssetField\<close> and \<open>InvalidGLB\<close> share
  the value 6; every other enumerator has the value listed, and two enumerators have
  the same value only when they are the same enumerator or are that pair.
\<close>

theorem Error_values:
  "to_underlying_Error InvalidOrMissingAssetField = 6
   \<and> to_underlying_Error InvalidGLB = 6
   \<and> to_underlying_Error None_Error = 0
   \<and> to_underlying_Error InvalidPath = 1
   \<and> to_underlying_Error MissingExtensions = 2
   \<and> to_underlying_Error UnknownRequiredExtension = 3
   \<and> to_underlying_Error InvalidJson = 4
   \<and> to_underlying_Error InvalidGltf = 5
   \<and> to_underlying_Error MissingField = 7
   \<and> to_underlying_Error MissingExternalBuffer = 8
   \<and> to_underlying_Error UnsupportedVersion = 9
   \<and> (\<forall>a b. (to_underlying_Error a = to_underlying_Error b)
          = (a = b \<or> {a, b} = {InvalidOrMissingAssetField, InvalidGLB}))"
  apply (intro conjI allI; (simp; fail)?)
  subgoal for a b by (cases a; cases b; simp add: doubleton_eq_iff)
  done

text \<open>
  C2, as the code has it. The value of \<open>Skins\<close> does not include the value of
  \<open>Nodes\<close>: \<open>Nodes\<close> is declared after \<open>Skins\<close> and includes it, so \<open>Skins\<close> only joins
  the raw literal \<^verbatim>\<open>1 << 11\<close>, the flag bit of \<open>Nodes\<close>.
\<close>

theorem Skins_excludes_Nodes_value:
  "to_underlying_Category Skins AND to_underlying_Category Nodes
     \<noteq> to_underlying_Category Nodes"
  by simp

text \<open>
  C2, amended. For every dependency of the list other than Skins on Nodes, the value
  of the dependent category includes every bit of the value of the category it depends
  on; the value of \<open>Skins\<close> includes the flag bit of \<open>Nodes\<close>, and none of the flag
  bits of the categories that \<open>Nodes\<close> brings in beyond those of \<open>Skins\<close>: Cameras,
  Meshes, Materials, Textures, Images and Samplers.
\<close>

theorem Category_dependency_bits:
  "Category_and BufferViews Buffers = to_underlying_Category Buffers
   \<and> Category_and Accessors BufferViews = to_underlying_Category BufferViews
   \<and> Category_and Images BufferViews = to_underlying_Category BufferViews
   \<and> Category_and Textures Images = to_underlying_Category Images
   \<and> Category_and Textures Samplers = to_underlying_Category Samplers
   \<and> Category_and Materials Textures = to_underlying_Category Textures
   \<and> Category_and Meshes Accessors = to_underlying_Category Accessors
   \<and> Category_and Meshes Materials = to_underlying_Category Materials
   \<and> Category_and Skins Accessors = to_underlying_Category Accessors
   \<and> to_underlying_Category Skins AND flag_bit Nodes = flag_bit Nodes
   \<and> to_underlying_Category Skins AND flag_bit Cameras = 0
   \<and> to_underlying_Category Skins AND flag_bit Meshes = 0
   \<and> to_underlying_Category Skins AND flag_bit Materials = 0
   \<and> to_underlying_Category Skins AND flag_bit Textures = 0
   \<and> to_underlying_Category Skins AND flag_bit Images = 0
   \<and> to_underlying_Category Skins AND flag_bit Samplers = 0
   \<and> Category_and Nodes Cameras = to_underlying_Category Cameras
   \<and> Category_and Nodes Meshes = to_underlying_Category Meshes
   \<and> Category_and Nodes Skins = to_underlying_Category Skins
   \<and> Category_and Scenes Nodes = to_underlying_Category Nodes
   \<and> Category_and Animations Accessors = to_underlying_Category Accessors"
  by (simp add: Category_and_def)

text \<open>
  C7. The value of \<open>Meshes\<close> contains the flag bit of a category exactly when the
  category is one of Buffers, BufferViews, Accessors, Images, Samplers, Textures,
  Materials and Meshes: so it contains none of the flag bits of Animations, Skins,
  Cameras, Nodes, Scenes and Asset.
\<close>

theorem Meshes_closure_exact:
  "(flag_bit c \<noteq> 0 \<and> to_underlying_Category Meshes AND flag_bit c = flag_bit c)
     = (c \<in> {Buffers, BufferViews, Accessors, Images, Samplers, Textures, Materials, Meshes})"
  by (cases c) simp_all

text \<open>
  C9. The value of \<open>All\<close> is the union of the values of the fourteen flags, and the
  union of their fourteen flag bits.
\<close>

theorem All_is_union:
  "to_underlying_Category All_Category =
     to_underlying_Category Buffers OR to_underlying_Category BufferViews
     OR to_underlying_Category Accessors OR to_underlying_Category Images
     OR to_underlying_Category Samplers OR to_underlying_Category Textures
     OR to_underlying_Category Animations OR to_underlying_Category Cameras
     OR to_underlying_Category Materials OR to_underlying_Category Meshes
     OR to_underlying_Category Skins OR to_underlying_Category Nodes
     OR to_underlying_Category Scenes OR to_underlying_Category Asset
   \<and> to_underlying_Category All_Category =
     flag_bit Buffers OR flag_bit BufferViews OR flag_bit Accessors OR flag_bit Images
     OR flag_bit Samplers OR flag_bit Textures OR flag_bit Animations OR flag_bit Cameras
     OR flag_bit Materials OR flag_bit Meshes OR flag_bit Skins OR flag_bit Nodes
     OR flag_bit Scenes OR flag_bit Asset"
  by simp

section \<open>Running the decoders on concrete inputs\<close>

lemma replicate_unfold: "0 < n \<Longrightarrow> replicate n x = x # replicate (n - 1) x"
  by (cases n) simp_all

lemmas size_defs = size_t_sub_def size_t_add_def size_t_of_int_def
lemmas mem_defs = memcpy_def vector_at_def loadu_def storeu_def resize_def string_view_at_def
lemmas float_defs = decoded_size_def float_floor_def float_mult_def float_of_size_t_def
  float_075_def round_float_def bit_length.simps
lemmas simd_defs = le16_def le32_def bytes16_def bytes32_def set1_epi8_def set1_epi32_def
  and_si_def add_epi8_def cmpeq_epi8_def blendv_epi8_def mm_shuffle_epi8_def
  mm256_shuffle_epi8_def extracti128_def saturate16_def
  lookup_pshufb_bitmask_def pack_ints_def avx2_shuf_def
  sse4_lookup_pshufb_bitmask_def sse4_pack_ints_def sse4_shuf_def
lemmas scalar_defs = base64_chars_def npos_def string_find_def find_all_def promote_def
  eightBitChars_of_def fallback_flush_def
lemmas eval_simps = Let_def replicate_unfold upt_rec bytes_of_def size_defs mem_defs
  padding_loop.simps avx2_loop.simps sse4_loop.simps fallback_loop.simps

lemma avx2_decode_empty: "avx2_decode [] = Inl OutOfBounds"
  by (simp add: avx2_decode_def eval_simps)

lemma sse4_decode_empty: "sse4_decode [] = Inl OutOfBounds"
  by (simp add: sse4_decode_def eval_simps)

lemma fallback_decode_empty: "fallback_decode [] = Inr []"
  by (simp add: fallback_decode_def eval_simps scalar_defs)

text \<open>
  C4. The scalar decoder returns the empty sequence for the empty string. Both vector
  decoders start the search for the padding at index \<open>encodedSize - 1\<close>, which wraps
  around to \<open>2 ^ 64 - 1\<close>, and read outside the empty input vector; so does \<open>decode\<close>
  on a machine where it dispatches to one of them.
\<close>

theorem decode_empty_string:
  "fallback_decode (bytes_of '''') = Inr []
   \<and> avx2_decode (bytes_of '''') = Inl OutOfBounds
   \<and> sse4_decode (bytes_of '''') = Inl OutOfBounds
   \<and> decode (Some True) sse4 (bytes_of '''') = Inl OutOfBounds
   \<and> decode None (Some True) (bytes_of '''') = Inl OutOfBounds
   \<and> decode None None (bytes_of '''') = Inr []"
  by (simp add: decode_def bytes_of_def avx2_decode_empty sse4_decode_empty
      fallback_decode_empty)

text \<open>
  C3 at the empty byte sequence: its reference encoding is the empty string, on which
  \<open>decode\<close> reads out of bounds wherever it dispatches to a vector decoder.
\<close>

theorem decode_encode_empty:
  "reference_encode [] = []
   \<and> decode (Some True) sse4 (reference_encode []) = Inl OutOfBounds
   \<and> decode None (Some True) (reference_encode []) = Inl OutOfBounds
   \<and> decode None None (reference_encode []) = Inr []"
  by (simp add: decode_def avx2_decode_empty sse4_decode_empty fallback_decode_empty)

text \<open>
  C10 at the input \<open>===\<close>. The lower bound \<open>encodedSize - 3\<close> of the search for the
  padding is 0, which every \<^verbatim>\<open>size_t\<close> reaches: after the indices 2, 1 and 0 the
  index wraps around to \<open>2 ^ 64 - 1\<close> and the read is outside the input vector.
\<close>

theorem padding_search_out_of_bounds:
  "padding_loop (bytes_of ''==='' @ replicate 29 0) 3 2 0 = Inl OutOfBounds
   \<and> avx2_decode (bytes_of ''==='') = Inl OutOfBounds
   \<and> sse4_decode (bytes_of ''==='') = Inl OutOfBounds"
  by (simp add: avx2_decode_def sse4_decode_def eval_simps)

lemma avx2_decode_fixtures:
  "avx2_decode (bytes_of ''/w=='') = Inr [0xFF]"
  "avx2_decode (bytes_of ''/+8='') = Inr [0xFF, 0xEF]"
  by (simp_all add: avx2_decode_def eval_simps float_defs simd_defs)

lemma sse4_decode_fixtures:
  "sse4_decode (bytes_of ''/w=='') = Inr [0xFF]"
  "sse4_decode (bytes_of ''/+8='') = Inr [0xFF, 0xEF]"
  by (simp_all add: sse4_decode_def eval_simps float_defs simd_defs)

lemma fallback_decode_fixtures:
  "fallback_decode (bytes_of ''/w=='') = Inr [0xFF]"
  "fallback_decode (bytes_of ''/+8='') = Inr [0xFF, 0xEF]"
  by (simp_all add: fallback_decode_def eval_simps scalar_defs)

lemma slash_lookups:
  "lookup_pshufb_bitmask (replicate 32 (of_char CHR ''/'')) = replicate 32 63"
  "sse4_lookup_pshufb_bitmask (replicate 16 (of_char CHR ''/'')) = replicate 16 63"
  "find_all [of_char CHR ''/''] = [63]"
  by (simp_all add: simd_defs scalar_defs eval_simps)

text \<open>
  C6. Whatever the dispatch selects, \<open>decode\<close> returns \<open>[0xFF]\<close> for \<open>/w==\<close> and
  \<open>[0xFF, 0xEF]\<close> for \<open>/+8=\<close>; the lookup of both vector decoders and the table lookup
  of the scalar decoder map the character \<open>/\<close> to 63.
\<close>

theorem decode_fixtures:
  "decode avx2 sse4 (bytes_of ''/w=='') = Inr [0xFF]
   \<and> decode avx2 sse4 (bytes_of ''/+8='') = Inr [0xFF, 0xEF]
   \<and> lookup_pshufb_bitmask (replicate 32 (of_char CHR ''/'')) = replicate 32 63
   \<and> sse4_lookup_pshufb_bitmask (replicate 16 (of_char CHR ''/'')) = replicate 16 63
   \<and> find_all [of_char CHR ''/''] = [63]"
  unfolding decode_def
  by (simp only: avx2_decode_fixtures sse4_decode_fixtures fallback_decode_fixtures
      slash_lookups if_cancel simp_thms)

section \<open>Sizes and the single-precision output size\<close>

lemma mask_const32: "(18446744073709551584::nat) = push_bit 5 (mask 59)"
  by (simp add: push_bit_eq_mult mask_eq_exp_minus_1)

lemma and_round_down32:
  assumes "x < 2 ^ 64"
  shows "(x::nat) AND 18446744073709551584 = x div 32 * 32"
proof -
  have "x AND push_bit 5 (mask 59) = push_bit 5 (drop_bit 5 x)"
  proof (rule bit_eqI)
    fix k
    have "bit x k \<Longrightarrow> k < 64"
      using assms by (metis bit_take_bit_iff take_bit_nat_eq_self_iff)
    then show "bit (x AND push_bit 5 (mask 59)) k = bit (push_bit 5 (drop_bit 5 x)) k"
      by (auto simp: bit_and_iff bit_push_bit_iff bit_mask_iff bit_drop_bit_eq)
  qed
  then show ?thesis
    by (simp add: mask_const32 push_bit_eq_mult drop_bit_eq_div)
qed

lemma mask_const16: "(18446744073709551600::nat) = push_bit 4 (mask 60)"
  by (simp add: push_bit_eq_mult mask_eq_exp_minus_1)

lemma and_round_down16:
  assumes "x < 2 ^ 64"
  shows "(x::nat) AND 18446744073709551600 = x div 16 * 16"
proof -
  have "x AND push_bit 4 (mask 60) = push_bit 4 (drop_bit 4 x)"
  proof (rule bit_eqI)
    fix k
    have "bit x k \<Longrightarrow> k < 64"
      using assms by (metis bit_take_bit_iff take_bit_nat_eq_self_iff)
    then show "bit (x AND push_bit 4 (mask 60)) k = bit (push_bit 4 (drop_bit 4 x)) k"
      by (auto simp: bit_and_iff bit_push_bit_iff bit_mask_iff bit_drop_bit_eq)
  qed
  then show ?thesis
    by (simp add: mask_const16 push_bit_eq_mult drop_bit_eq_div)
qed

lemma size_t_small:
  "a + b < 2 ^ 64 \<Longrightarrow> size_t_add a b = a + b"
  "b \<le> a \<Longrightarrow> a < 2 ^ 64 \<Longrightarrow> size_t_sub a b = a - b"
  by (simp_all add: size_t_add_def size_t_sub_def size_t_of_int_def nat_add_distrib
      nat_diff_distrib' of_nat_diff)

lemma padded_size32:
  assumes "n + 32 < 2 ^ 64"
  shows "size_t_sub (size_t_add n 32) 1 AND size_t_of_int (- 32) = (n + 31) div 32 * 32"
proof -
  have "size_t_sub (size_t_add n 32) 1 = n + 31"
    using assms by (simp add: size_t_small)
  moreover have "size_t_of_int (- 32) = 18446744073709551584"
    by (simp add: size_t_of_int_def)
  ultimately show ?thesis
    using assms by (simp add: and_round_down32)
qed

lemma padded_size16:
  assumes "n + 16 < 2 ^ 64"
  shows "size_t_sub (size_t_add n 16) 1 AND size_t_of_int (- 16) = (n + 15) div 16 * 16"
proof -
  have "size_t_sub (size_t_add n 16) 1 = n + 15"
    using assms by (simp add: size_t_small)
  moreover have "size_t_of_int (- 16) = 18446744073709551600"
    by (simp add: size_t_of_int_def)
  ultimately show ?thesis
    using assms by (simp add: and_round_down16)
qed

lemma bit_length_le: "m < 2 ^ k \<Longrightarrow> bit_length m \<le> k"
proof (induction k arbitrary: m)
  case 0
  then show ?case by (simp add: bit_length.simps)
next
  case (Suc k)
  show ?case
  proof (cases "m = 0")
    case True
    then show ?thesis by (simp add: bit_length.simps)
  next
    case False
    from Suc.prems have "m div 2 < 2 ^ k" by simp
    from Suc.IH [OF this] False show ?thesis
      by (subst bit_length.simps) simp
  qed
qed

lemma decoded_size_exact:
  assumes "3 * d < 2 ^ 24"
  shows "decoded_size d = 3 * d div 4"
proof -
  have "d < 2 ^ 24" using assms by simp
  then have "bit_length d - 24 = 0" using bit_length_le [of d 24] by simp
  then have a: "float_of_size_t d = (d, 0)"
    by (simp add: float_of_size_t_def round_float_def)
  have "bit_length (d * 3) - 24 = 0"
    using bit_length_le [of "d * 3" 24] assms by (simp add: mult.commute)
  then have "float_mult (d, 0) float_075 = (d * 3, - 2)"
    by (simp add: float_mult_def float_075_def round_float_def)
  with a show ?thesis
    by (simp add: decoded_size_def float_floor_def mult.commute)
qed

section \<open>The lookup of the vector decoders\<close>

lemma m15: "(15::byte) = mask 4"
  by (simp add: mask_eq_exp_minus_1)

lemma high_nibble_quad:
  "and_si (bytes32 (drop_bit 4 (le32 b0 b1 b2 b3))) [0x0f, 0x0f, 0x0f, 0x0f]
     = [drop_bit 4 b0, drop_bit 4 b1, drop_bit 4 b2, drop_bit 4 b3]"
  apply (simp add: and_si_def bytes32_def le32_def m15)
  apply (intro conjI; rule bit_eqI)
  apply (auto simp: bit_simps dest: bit_imp_le_length)
  done

lemma length_quads:
  "length xs = 4 * Suc k \<Longrightarrow> \<exists>b0 b1 b2 b3 bs. xs = b0 # b1 # b2 # b3 # bs \<and> length bs = 4 * k"
proof -
  assume "length xs = 4 * Suc k"
  then have "length xs = Suc (Suc (Suc (Suc (4 * k))))" by simp
  then obtain b0 r0 where r0: "xs = b0 # r0" "length r0 = Suc (Suc (Suc (4 * k)))"
    unfolding length_Suc_conv by blast
  then obtain b1 r1 where r1: "r0 = b1 # r1" "length r1 = Suc (Suc (4 * k))"
    unfolding length_Suc_conv by blast
  then obtain b2 r2 where r2: "r1 = b2 # r2" "length r2 = Suc (4 * k)"
    unfolding length_Suc_conv by blast
  then obtain b3 r3 where r3: "r2 = b3 # r3" "length r3 = 4 * k"
    unfolding length_Suc_conv by blast
  from r0 r1 r2 r3 show ?thesis by blast
qed

lemma length_bytes32 [simp]: "length (bytes32 w) = 4"
  by (simp add: bytes32_def)

lemma length_bytes16 [simp]: "length (bytes16 w) = 2"
  by (simp add: bytes16_def)

lemma and_si_append:
  "length a = length b \<Longrightarrow> and_si (a @ c) (b @ d) = and_si a b @ and_si c d"
  by (simp add: and_si_def)

lemma set1_epi8_quads: "set1_epi8 (4 * Suc k) c = [c, c, c, c] @ set1_epi8 (4 * k) c"
proof -
  have "replicate (4 * Suc k) c = replicate 4 c @ replicate (4 * k) c"
    by (simp flip: replicate_add)
  moreover have "replicate 4 c = [c, c, c, c]"
    by (simp add: numeral_eq_Suc)
  ultimately show ?thesis unfolding set1_epi8_def by simp
qed

lemma higher_nibble:
  "length xs = 4 * k \<Longrightarrow>
     and_si (srli_epi32 xs 4) (set1_epi8 (4 * k) 0x0f) = map (drop_bit 4) xs"
proof (induction k arbitrary: xs)
  case 0
  then show ?case by (simp add: and_si_def)
next
  case (Suc k)
  from length_quads [OF Suc.prems]
  obtain b0 b1 b2 b3 bs where xs: "xs = b0 # b1 # b2 # b3 # bs" and bs: "length bs = 4 * k"
    by blast
  have "and_si (srli_epi32 xs 4) (set1_epi8 (4 * Suc k) 0x0f)
      = and_si (bytes32 (drop_bit 4 (le32 b0 b1 b2 b3)) @ srli_epi32 bs 4)
          ([0x0f, 0x0f, 0x0f, 0x0f] @ set1_epi8 (4 * k) 0x0f)"
    by (simp only: xs srli_epi32.simps set1_epi8_quads)
  also have "\<dots> = and_si (bytes32 (drop_bit 4 (le32 b0 b1 b2 b3))) [0x0f, 0x0f, 0x0f, 0x0f]
      @ and_si (srli_epi32 bs 4) (set1_epi8 (4 * k) 0x0f)"
    by (rule and_si_append) simp
  also have "\<dots> = [drop_bit 4 b0, drop_bit 4 b1, drop_bit 4 b2, drop_bit 4 b3]
      @ map (drop_bit 4) bs"
    by (simp only: high_nibble_quad Suc.IH [OF bs])
  finally show ?case by (simp add: xs)
qed

lemma shuffle_nibble:
  "length lut = 16 \<Longrightarrow>
   mm_shuffle_epi8 lut (map (drop_bit 4) xs) = map (\<lambda>c. lut ! unat (drop_bit 4 c)) xs"
proof -
  have a: "\<not> bit (drop_bit 4 c) 7" for c :: byte
    by (auto simp: bit_simps dest: bit_imp_le_length)
  have b: "drop_bit 4 c AND 0x0F = drop_bit 4 c" for c :: byte
    unfolding m15
    by (rule bit_eqI) (auto simp: bit_simps dest: bit_imp_le_length)
  show ?thesis
    by (simp add: mm_shuffle_epi8_def a b)
qed

lemma shuffle256_same_lut:
  "length lut = 16 \<Longrightarrow> length idx = 32 \<Longrightarrow>
   mm256_shuffle_epi8 (lut @ lut) idx = mm_shuffle_epi8 lut idx"
proof -
  assume l: "length lut = 16" and i: "length idx = 32"
  have "mm_shuffle_epi8 lut (take 16 idx) @ mm_shuffle_epi8 lut (drop 16 idx)
     = mm_shuffle_epi8 lut (take 16 idx @ drop 16 idx)"
    by (simp add: mm_shuffle_epi8_def flip: map_append)
  then show ?thesis
    using l by (simp add: mm256_shuffle_epi8_def)
qed

lemma cmpeq_const:
  "cmpeq_epi8 xs (set1_epi8 (length xs) c) = map (\<lambda>x. if x = c then 0xFF else 0) xs"
  by (induction xs) (simp_all add: cmpeq_epi8_def set1_epi8_def)

lemma blendv_const:
  "blendv_epi8 (map f xs) (set1_epi8 (length xs) c) (map g xs)
     = map (\<lambda>x. if bit (g x) 7 then c else f x) xs"
  by (induction xs) (simp_all add: blendv_epi8_def set1_epi8_def)

lemma add_epi8_map: "add_epi8 xs (map f xs) = map (\<lambda>x. x + f x) xs"
  by (induction xs) (simp_all add: add_epi8_def)

lemma sse4_lookup_map:
  assumes "length xs = 16"
  shows "sse4_lookup_pshufb_bitmask xs = map lookup_value xs"
proof -
  have len: "length xs = 4 * 4" using assms by simp
  have hn: "and_si (srli_epi32 xs 4) (set1_epi8 16 0x0f) = map (drop_bit 4) xs"
    using higher_nibble [OF len] by simp
  have c: "cmpeq_epi8 xs (set1_epi8 16 0x2f) = map (\<lambda>x. if x = 0x2f then 0xFF else 0) xs"
    using cmpeq_const [of xs "0x2f"] assms by simp
  have b: "blendv_epi8 (map f xs) (set1_epi8 16 16) (map g xs)
     = map (\<lambda>x. if bit (g x) 7 then 16 else f x) xs" for f g
    using blendv_const [of f xs 16 g] assms by simp
  show ?thesis
    unfolding sse4_lookup_pshufb_bitmask_def Let_def hn c
    by (simp add: shuffle_nibble b add_epi8_map lookup_value_def)
qed

lemma lookup_map:
  assumes "length xs = 32"
  shows "lookup_pshufb_bitmask xs = map lookup_value xs"
proof -
  have len: "length xs = 4 * 8" using assms by simp
  have hn: "and_si (srli_epi32 xs 4) (set1_epi8 32 0x0f) = map (drop_bit 4) xs"
    using higher_nibble [OF len] by simp
  have c: "cmpeq_epi8 xs (set1_epi8 32 0x2f) = map (\<lambda>x. if x = 0x2f then 0xFF else 0) xs"
    using cmpeq_const [of xs "0x2f"] assms by simp
  have b: "blendv_epi8 (map f xs) (set1_epi8 32 16) (map g xs)
     = map (\<lambda>x. if bit (g x) 7 then 16 else f x) xs" for f g
    using blendv_const [of f xs 16 g] assms by simp
  have lut: "[0, 0, 19, 4, - 65, - 65, - 71, - 71, 0, 0, 0, 0, 0, 0, 0, 0,
              0, 0, 19, 4, - 65, - 65, - 71, - 71, 0, 0, 0, 0, 0, 0, 0, 0 :: byte]
       = [0, 0, 19, 4, - 65, - 65, - 71, - 71, 0, 0, 0, 0, 0, 0, 0, 0]
       @ [0, 0, 19, 4, - 65, - 65, - 71, - 71, 0, 0, 0, 0, 0, 0, 0, 0]"
    by simp
  have sh: "mm256_shuffle_epi8
       [0, 0, 19, 4, - 65, - 65, - 71, - 71, 0, 0, 0, 0, 0, 0, 0, 0,
        0, 0, 19, 4, - 65, - 65, - 71, - 71, 0, 0, 0, 0, 0, 0, 0, 0] (map (drop_bit 4) xs)
     = mm_shuffle_epi8 [0, 0, 19, 4, - 65, - 65, - 71, - 71, 0, 0, 0, 0, 0, 0, 0, 0]
         (map (drop_bit 4) xs)"
    unfolding lut by (rule shuffle256_same_lut) (simp_all add: assms)
  show ?thesis
    unfolding lookup_pshufb_bitmask_def Let_def hn c sh
    by (simp add: shuffle_nibble b add_epi8_map lookup_value_def)
qed

section \<open>The packing of the vector decoders\<close>

lemma le16_bytes16: "le16 (ucast w) (ucast (drop_bit 8 w)) = w"
  unfolding le16_def
  by (rule bit_eqI) (auto simp: bit_simps dest: bit_imp_le_length)

lemma unat_byte_bound: "unat (a :: byte) < 256"
proof -
  have "unat a < 2 ^ LENGTH(8)" by (rule unsigned_less)
  then show ?thesis by simp
qed

lemma uint_byte_bound: "0 \<le> uint (a :: byte) \<and> uint a < 256"
  using uint_lt2p [of a] by simp

lemma maddubs_pair:
  "saturate16 (uint (a :: byte) * sint (0x40 :: byte) + uint (b :: byte) * sint (0x01 :: byte))
     = of_nat (unat a * 64 + unat b)"
proof -
  have "max (- 32768) (min 32767 (uint a * 64 + uint b)) = uint a * 64 + uint b"
    using uint_byte_bound [of a] uint_byte_bound [of b] by linarith
  then show ?thesis
    by (simp add: saturate16_def)
qed

lemma sint_merge:
  "sint (of_nat (unat (a :: byte) * 64 + unat (b :: byte)) :: 16 word) = int (unat a * 64 + unat b)"
proof -
  have "0 \<le> uint a * 64 + uint b"
    by simp
  moreover have "- (2 ^ 15) \<le> (0 :: int)"
    by simp
  ultimately have "- (2 ^ 15) \<le> uint a * 64 + uint b"
    by (rule order_trans [rotated])
  moreover have "uint a * 64 + uint b < 2 ^ 15"
    using uint_byte_bound [of a] uint_byte_bound [of b] by simp
  ultimately have st: "signed_take_bit 15 (uint a * 64 + uint b) = uint a * 64 + uint b"
    by (rule signed_take_bit_int_eq_self)
  have n: "int (unat a * 64 + unat b) = uint a * 64 + uint b"
    by simp
  have "sint (of_nat (unat a * 64 + unat b) :: 16 word)
      = signed_take_bit (LENGTH(16) - Suc 0) (int (unat a * 64 + unat b))"
    by (simp only: signed_of_nat of_int_eq_id id_apply)
  also have "\<dots> = signed_take_bit 15 (uint a * 64 + uint b)"
    by (simp only: n) simp
  also have "\<dots> = uint a * 64 + uint b"
    by (rule st)
  also have "\<dots> = int (unat a * 64 + unat b)"
    by (simp only: n)
  finally show ?thesis .
qed

lemma pack_quad:
  "madd_epi16 (maddubs_epi16 [v0, v1, v2, v3] (bytes32 0x01400140)) (bytes32 0x00011000)
     = bytes32 (of_nat (quad_value v0 v1 v2 v3))"
proof -
  have c1: "bytes32 0x01400140 = [0x40, 0x01, 0x40, 0x01]"
    by (simp add: bytes32_def)
  have c2: "bytes32 0x00011000 = [0x00, 0x10, 0x01, 0x00]"
    by (simp add: bytes32_def)
  have k: "sint (le16 0x00 0x10) = 4096" "sint (le16 0x01 0x00) = 1"
    by (simp_all add: le16_def)
  have "maddubs_epi16 [v0, v1, v2, v3] [0x40, 0x01, 0x40, 0x01]
      = bytes16 (of_nat (unat v0 * 64 + unat v1)) @ bytes16 (of_nat (unat v2 * 64 + unat v3))"
    by (simp only: maddubs_epi16.simps maddubs_pair append_Nil2)
  also have "\<dots> = [ucast (of_nat (unat v0 * 64 + unat v1) :: 16 word),
                      ucast (drop_bit 8 (of_nat (unat v0 * 64 + unat v1) :: 16 word)),
                      ucast (of_nat (unat v2 * 64 + unat v3) :: 16 word),
                      ucast (drop_bit 8 (of_nat (unat v2 * 64 + unat v3) :: 16 word))]"
    by (simp only: bytes16_def append.simps)
  finally have m: "maddubs_epi16 [v0, v1, v2, v3] [0x40, 0x01, 0x40, 0x01] = \<dots>" .
  have "madd_epi16 (maddubs_epi16 [v0, v1, v2, v3] [0x40, 0x01, 0x40, 0x01])
          [0x00, 0x10, 0x01, 0x00]
      = bytes32 (word_of_int (int (unat v0 * 64 + unat v1) * 4096
                              + int (unat v2 * 64 + unat v3) * 1))"
    by (simp only: m madd_epi16.simps le16_bytes16 sint_merge k append_Nil2)
  also have "word_of_int (int (unat v0 * 64 + unat v1) * 4096
                              + int (unat v2 * 64 + unat v3) * 1)
      = (of_nat (quad_value v0 v1 v2 v3) :: 32 word)"
    by (simp add: quad_value_def)
  finally show ?thesis
    unfolding c1 c2 .
qed

section \<open>The packed lanes and the shuffle\<close>

lemma pack_step:
  "madd_epi16 (maddubs_epi16 (v0 # v1 # v2 # v3 # vs) (0x40 # 0x01 # 0x40 # 0x01 # ms))
      (0x00 # 0x10 # 0x01 # 0x00 # ns)
     = bytes32 (of_nat (quad_value v0 v1 v2 v3)) @ madd_epi16 (maddubs_epi16 vs ms) ns"
proof -
  have k: "sint (le16 0x00 0x10) = 4096" "sint (le16 0x01 0x00) = 1"
    by (simp_all add: le16_def)
  have "maddubs_epi16 (v0 # v1 # v2 # v3 # vs) (0x40 # 0x01 # 0x40 # 0x01 # ms)
      = bytes16 (of_nat (unat v0 * 64 + unat v1)) @ bytes16 (of_nat (unat v2 * 64 + unat v3))
          @ maddubs_epi16 vs ms"
    by (simp only: maddubs_epi16.simps maddubs_pair append_assoc)
  also have "\<dots> = ucast (of_nat (unat v0 * 64 + unat v1) :: 16 word)
                    # ucast (drop_bit 8 (of_nat (unat v0 * 64 + unat v1) :: 16 word))
                    # ucast (of_nat (unat v2 * 64 + unat v3) :: 16 word)
                    # ucast (drop_bit 8 (of_nat (unat v2 * 64 + unat v3) :: 16 word))
                    # maddubs_epi16 vs ms"
    by (simp only: bytes16_def append.simps)
  finally have m: "maddubs_epi16 (v0 # v1 # v2 # v3 # vs) (0x40 # 0x01 # 0x40 # 0x01 # ms)
      = \<dots>" .
  have "madd_epi16 (maddubs_epi16 (v0 # v1 # v2 # v3 # vs) (0x40 # 0x01 # 0x40 # 0x01 # ms))
          (0x00 # 0x10 # 0x01 # 0x00 # ns)
      = bytes32 (word_of_int (int (unat v0 * 64 + unat v1) * 4096
                              + int (unat v2 * 64 + unat v3) * 1))
          @ madd_epi16 (maddubs_epi16 vs ms) ns"
    by (simp only: m madd_epi16.simps le16_bytes16 sint_merge k)
  also have "word_of_int (int (unat v0 * 64 + unat v1) * 4096
                              + int (unat v2 * 64 + unat v3) * 1)
      = (of_nat (quad_value v0 v1 v2 v3) :: 32 word)"
    by (simp add: quad_value_def)
  finally show ?thesis .
qed

lemma set1_epi32_Suc: "set1_epi32 (Suc k) x = bytes32 x @ set1_epi32 k x"
  by (simp add: set1_epi32_def)

lemma pack_list:
  "length vs = 4 * k \<Longrightarrow>
     madd_epi16 (maddubs_epi16 vs (set1_epi32 k 0x01400140)) (set1_epi32 k 0x00011000)
       = packed_quads vs"
proof (induction k arbitrary: vs)
  case 0
  then show ?case by (simp add: set1_epi32_def)
next
  case (Suc k)
  from length_quads [OF Suc.prems]
  obtain v0 v1 v2 v3 rest where vs: "vs = v0 # v1 # v2 # v3 # rest" and rest: "length rest = 4 * k"
    by blast
  have c1: "bytes32 0x01400140 = [0x40, 0x01, 0x40, 0x01]"
    by (simp add: bytes32_def)
  have c2: "bytes32 0x00011000 = [0x00, 0x10, 0x01, 0x00]"
    by (simp add: bytes32_def)
  show ?case
    unfolding vs set1_epi32_Suc c1 c2 append.simps pack_step packed_quads.simps
    by (simp only: Suc.IH [OF rest])
qed

lemma pack_ints_quads: "length vs = 32 \<Longrightarrow> pack_ints vs = packed_quads vs"
  using pack_list [of vs 8] by (simp add: pack_ints_def)

lemma sse4_pack_ints_quads: "length vs = 16 \<Longrightarrow> sse4_pack_ints vs = packed_quads vs"
  using pack_list [of vs 4] by (simp add: sse4_pack_ints_def)

lemma quad_value_bound: "quad_value v0 v1 v2 v3 < 2 ^ 32"
  using unat_byte_bound [of v0] unat_byte_bound [of v1] unat_byte_bound [of v2]
    unat_byte_bound [of v3]
  by (simp add: quad_value_def)

lemma byte_of_lane:
  assumes "n < 2 ^ 32"
  shows "(ucast (drop_bit k (of_nat n :: 32 word)) :: byte) = of_nat (n div 2 ^ k)"
proof -
  have "unat (of_nat n :: 32 word) = n"
    using assms by (simp add: unat_of_nat)
  moreover have "unat (drop_bit k (of_nat n :: 32 word)) = drop_bit k (unat (of_nat n :: 32 word))"
    by (rule unat_drop_bit_eq)
  ultimately have "unat (drop_bit k (of_nat n :: 32 word)) = n div 2 ^ k"
    by (simp only: drop_bit_eq_div)
  then have "(of_nat (unat (drop_bit k (of_nat n :: 32 word))) :: byte) = of_nat (n div 2 ^ k)"
    by (simp only:)
  then show ?thesis
    by simp
qed


lemma shuffle_lane:
  "mm_shuffle_epi8 (packed_quads [a0, a1, a2, a3, b0, b1, b2, b3, c0, c1, c2, c3, d0, d1, d2, d3])
       sse4_shuf
     = quad_bytes (quad_value a0 a1 a2 a3) @ quad_bytes (quad_value b0 b1 b2 b3)
       @ quad_bytes (quad_value c0 c1 c2 c3) @ quad_bytes (quad_value d0 d1 d2 d3)
       @ [0, 0, 0, 0]"
proof -
  have b: "bytes32 (of_nat (quad_value v0 v1 v2 v3))
     = [of_nat (quad_value v0 v1 v2 v3), of_nat (quad_value v0 v1 v2 v3 div 256),
        of_nat (quad_value v0 v1 v2 v3 div 65536), of_nat (quad_value v0 v1 v2 v3 div 16777216)]"
    for v0 v1 v2 v3
    using byte_of_lane [OF quad_value_bound, of 0 v0 v1 v2 v3]
      byte_of_lane [OF quad_value_bound, of 8 v0 v1 v2 v3]
      byte_of_lane [OF quad_value_bound, of 16 v0 v1 v2 v3]
      byte_of_lane [OF quad_value_bound, of 24 v0 v1 v2 v3]
    by (simp add: bytes32_def)
  show ?thesis
    by (simp add: b mm_shuffle_epi8_def sse4_shuf_def quad_bytes_def)
qed

section \<open>One register of input\<close>

lemma length_16:
  assumes "length xs = 16"
  obtains a0 a1 a2 a3 b0 b1 b2 b3 c0 c1 c2 c3 d0 d1 d2 d3
  where "xs = [a0, a1, a2, a3, b0, b1, b2, b3, c0, c1, c2, c3, d0, d1, d2, d3]"
proof -
  from assms have "length xs = 4 * Suc 3" by simp
  from length_quads [OF this] obtain a0 a1 a2 a3 r1
    where 1: "xs = a0 # a1 # a2 # a3 # r1" "length r1 = 4 * Suc 2" by auto
  from length_quads [OF 1(2)] obtain b0 b1 b2 b3 r2
    where 2: "r1 = b0 # b1 # b2 # b3 # r2" "length r2 = 4 * Suc 1" by auto
  from length_quads [OF 2(2)] obtain c0 c1 c2 c3 r3
    where 3: "r2 = c0 # c1 # c2 # c3 # r3" "length r3 = 4 * Suc 0" by auto
  from length_quads [OF 3(2)] obtain d0 d1 d2 d3 r4
    where 4: "r3 = d0 # d1 # d2 # d3 # r4" "length r4 = 4 * 0" by auto
  from 1 2 3 4 have "xs = [a0, a1, a2, a3, b0, b1, b2, b3, c0, c1, c2, c3, d0, d1, d2, d3]"
    by simp
  then show ?thesis by (rule that)
qed

lemma sse4_lane:
  assumes "length xs = 16"
  shows "mm_shuffle_epi8 (sse4_pack_ints (sse4_lookup_pshufb_bitmask xs)) sse4_shuf
           = simd_quads xs @ [0, 0, 0, 0]"
proof -
  from assms obtain a0 a1 a2 a3 b0 b1 b2 b3 c0 c1 c2 c3 d0 d1 d2 d3
    where xs: "xs = [a0, a1, a2, a3, b0, b1, b2, b3, c0, c1, c2, c3, d0, d1, d2, d3]"
    by (rule length_16)
  have "sse4_pack_ints (sse4_lookup_pshufb_bitmask xs) = packed_quads (map lookup_value xs)"
    using assms by (simp add: sse4_lookup_map sse4_pack_ints_quads)
  then have "mm_shuffle_epi8 (sse4_pack_ints (sse4_lookup_pshufb_bitmask xs)) sse4_shuf
      = mm_shuffle_epi8 (packed_quads (map lookup_value xs)) sse4_shuf"
    by (simp only:)
  also have "\<dots> = simd_quads xs @ [0, 0, 0, 0]"
    unfolding xs list.map by (simp only: shuffle_lane) simp
  finally show ?thesis .
qed

lemma packed_quads_append:
  "length xs = 4 * k \<Longrightarrow> packed_quads (xs @ ys) = packed_quads xs @ packed_quads ys"
proof (induction k arbitrary: xs)
  case 0
  then show ?case by simp
next
  case (Suc k)
  from length_quads [OF Suc.prems]
  obtain v0 v1 v2 v3 rest where xs: "xs = v0 # v1 # v2 # v3 # rest" and rest: "length rest = 4 * k"
    by blast
  show ?case by (simp add: xs Suc.IH [OF rest])
qed

lemma simd_quads_append:
  "length xs = 4 * k \<Longrightarrow> simd_quads (xs @ ys) = simd_quads xs @ simd_quads ys"
proof (induction k arbitrary: xs)
  case 0
  then show ?case by simp
next
  case (Suc k)
  from length_quads [OF Suc.prems]
  obtain v0 v1 v2 v3 rest where xs: "xs = v0 # v1 # v2 # v3 # rest" and rest: "length rest = 4 * k"
    by blast
  show ?case by (simp add: xs Suc.IH [OF rest])
qed

lemma length_packed_quads: "length xs = 4 * k \<Longrightarrow> length (packed_quads xs) = 4 * k"
proof (induction k arbitrary: xs)
  case 0
  then show ?case by simp
next
  case (Suc k)
  from length_quads [OF Suc.prems]
  obtain v0 v1 v2 v3 rest where xs: "xs = v0 # v1 # v2 # v3 # rest" and rest: "length rest = 4 * k"
    by blast
  show ?case by (simp add: xs Suc.IH [OF rest])
qed

lemma length_simd_quads: "length xs = 4 * k \<Longrightarrow> length (simd_quads xs) = 3 * k"
proof (induction k arbitrary: xs)
  case 0
  then show ?case by simp
next
  case (Suc k)
  from length_quads [OF Suc.prems]
  obtain v0 v1 v2 v3 rest where xs: "xs = v0 # v1 # v2 # v3 # rest" and rest: "length rest = 4 * k"
    by blast
  show ?case by (simp add: xs Suc.IH [OF rest] quad_bytes_def)
qed

lemma avx2_lanes:
  assumes "length xs = 32"
  shows "extracti128 (mm256_shuffle_epi8 (pack_ints (lookup_pshufb_bitmask xs)) avx2_shuf) 0
           = simd_quads (take 16 xs) @ [0, 0, 0, 0]"
    and "extracti128 (mm256_shuffle_epi8 (pack_ints (lookup_pshufb_bitmask xs)) avx2_shuf) 1
           = simd_quads (drop 16 xs) @ [0, 0, 0, 0]"
proof -
  let ?lo = "take 16 xs" and ?hi = "drop 16 xs"
  have lo: "length ?lo = 16" and hi: "length ?hi = 16"
    using assms by simp_all
  have xs: "xs = ?lo @ ?hi" by simp
  have ml: "length (map lookup_value ?lo) = 4 * 4" and mh: "length (map lookup_value ?hi) = 4 * 4"
    using lo hi by simp_all
  have p: "pack_ints (lookup_pshufb_bitmask xs)
      = packed_quads (map lookup_value ?lo) @ packed_quads (map lookup_value ?hi)"
  proof -
    have "pack_ints (lookup_pshufb_bitmask xs) = packed_quads (map lookup_value xs)"
      using assms by (simp add: lookup_map pack_ints_quads)
    also have "map lookup_value xs = map lookup_value ?lo @ map lookup_value ?hi"
      by (simp flip: map_append)
    also have "packed_quads \<dots> = packed_quads (map lookup_value ?lo) @ packed_quads (map lookup_value ?hi)"
      by (rule packed_quads_append [OF ml])
    finally show ?thesis .
  qed
  have lp: "length (packed_quads (map lookup_value ?lo)) = 16"
    using length_packed_quads [OF ml] by simp
  have hp: "length (packed_quads (map lookup_value ?hi)) = 16"
    using length_packed_quads [OF mh] by simp
  have s: "take 16 avx2_shuf = sse4_shuf" "drop 16 avx2_shuf = sse4_shuf"
    by (simp_all add: avx2_shuf_def sse4_shuf_def)
  have l: "mm_shuffle_epi8 (packed_quads (map lookup_value ys)) sse4_shuf
      = simd_quads ys @ [0, 0, 0, 0]" if "length ys = 16" for ys
    using sse4_lane [OF that] that by (simp add: sse4_lookup_map sse4_pack_ints_quads)
  have len: "length (mm_shuffle_epi8 a sse4_shuf) = 16" for a
    by (simp add: mm_shuffle_epi8_def sse4_shuf_def)
  have sh: "mm256_shuffle_epi8 (pack_ints (lookup_pshufb_bitmask xs)) avx2_shuf
      = (simd_quads ?lo @ [0, 0, 0, 0]) @ (simd_quads ?hi @ [0, 0, 0, 0])"
    unfolding p mm256_shuffle_epi8_def s
    by (simp add: lp hp l [OF lo] l [OF hi])
  have l4: "length ?lo = 4 * 4" "length ?hi = 4 * 4"
    using lo hi by simp_all
  have ll: "length (simd_quads ?lo @ [0, 0, 0, 0]) = 16" "length (simd_quads ?hi @ [0, 0, 0, 0]) = 16"
    using length_simd_quads [OF l4(1)] length_simd_quads [OF l4(2)] by simp_all
  show "extracti128 (mm256_shuffle_epi8 (pack_ints (lookup_pshufb_bitmask xs)) avx2_shuf) 0
           = simd_quads (take 16 xs) @ [0, 0, 0, 0]"
    unfolding sh extracti128_def using ll by simp
  show "extracti128 (mm256_shuffle_epi8 (pack_ints (lookup_pshufb_bitmask xs)) avx2_shuf) 1
           = simd_quads (drop 16 xs) @ [0, 0, 0, 0]"
    unfolding sh extracti128_def using ll by simp
qed

section \<open>The block loops\<close>

lemma zeros_join: "k \<le> m \<Longrightarrow> replicate k (0 :: byte) @ replicate (m - k) 0 = replicate m 0"
  by (simp flip: replicate_add)

lemma four_zeros: "[0, 0, 0, 0 :: byte] = replicate 4 0"
  by (simp add: numeral_eq_Suc)

lemma drop_chunk: "drop p xs = take w (drop p xs) @ drop (p + w) xs"
  by (metis add.commute append_take_drop_id drop_drop)

lemma sse4_loop_stop: "length input \<le> pos \<Longrightarrow> sse4_loop input pos out ret = Inr ret"
  by (subst sse4_loop.simps) simp

lemma sse4_loop_step:
  assumes "pos + 16 \<le> length input" and "length input < 2 ^ 64"
    and "16 \<le> m" and "length done = out"
  shows "sse4_loop input pos out (done @ replicate m 0)
       = sse4_loop input (pos + 16) (out + 12)
           ((done @ simd_quads (take 16 (drop pos input))) @ replicate (m - 12) 0)"
proof -
  let ?in = "take 16 (drop pos input)"
  have len: "length ?in = 16"
    using assms(1) by simp
  have ld: "loadu 16 input pos = Inr ?in"
    using assms(1,2) by (simp add: loadu_def)
  have lq: "length (simd_quads ?in) = 12"
    using length_simd_quads [of ?in 4] len by simp
  have st: "storeu (done @ replicate m 0) out (simd_quads ?in @ [0, 0, 0, 0])
      = Inr ((done @ simd_quads ?in) @ replicate (m - 12) 0)"
  proof -
    have "[0, 0, 0, 0] @ replicate (m - 16) (0 :: byte) = replicate (m - 12) 0"
      unfolding four_zeros using assms(3) by (simp flip: replicate_add)
    then show ?thesis
      using assms(3,4) lq by (simp add: storeu_def)
  qed
  have nx: "size_t_add pos 16 = pos + 16"
    using assms(1,2) by (simp add: size_t_small)
  have "pos < length input"
    using assms(1) by simp
  then show ?thesis
    by (subst sse4_loop.simps) (simp add: ld Let_def sse4_lane [OF len] st nx)
qed

lemma sse4_loop_blocks:
  assumes "length input = 16 * k" and "length input < 2 ^ 64"
  shows "j + n = k \<Longrightarrow> length done = 12 * j \<Longrightarrow> 12 * n + 4 \<le> m \<Longrightarrow>
     sse4_loop input (16 * j) (12 * j) (done @ replicate m 0)
       = Inr (done @ simd_quads (drop (16 * j) input) @ replicate (m - 12 * n) 0)"
proof (induction n arbitrary: j "done" m)
  case 0
  then have "16 * j = length input" using assms(1) by simp
  then show ?case
    by (simp add: sse4_loop_stop)
next
  case (Suc n)
  let ?in = "take 16 (drop (16 * j) input)"
  have a: "16 * j + 16 \<le> length input"
    using Suc.prems(1) assms(1) by simp
  have len: "length ?in = 4 * 4"
    using a by simp
  have lq: "length (simd_quads ?in) = 12"
    using length_simd_quads [OF len] by simp
  have split: "simd_quads (drop (16 * j) input)
      = simd_quads ?in @ simd_quads (drop (16 * Suc j) input)"
  proof -
    have e: "16 * Suc j = 16 * j + 16" by simp
    have "drop (16 * j) input = ?in @ drop (16 * Suc j) input"
      unfolding e by (rule drop_chunk)
    then show ?thesis
      using simd_quads_append [OF len, of "drop (16 * Suc j) input"] by simp
  qed
  have "sse4_loop input (16 * j) (12 * j) (done @ replicate m 0)
      = sse4_loop input (16 * Suc j) (12 * Suc j)
          ((done @ simd_quads ?in) @ replicate (m - 12) 0)"
    using sse4_loop_step [OF a assms(2), of m "done" "12 * j"] Suc.prems(2,3)
    by (simp add: add.commute)
  also have "\<dots> = Inr ((done @ simd_quads ?in) @ simd_quads (drop (16 * Suc j) input)
       @ replicate (m - 12 - 12 * n) 0)"
    using Suc.prems lq by (intro Suc.IH) simp_all
  finally show ?case
    by (simp add: split)
qed

lemma sse4_loop_result:
  assumes "length input = 16 * k" and "length input < 2 ^ 64"
  shows "sse4_loop input 0 0 (replicate (length input) 0)
       = Inr (simd_quads input @ replicate (4 * k) 0)"
proof (cases "k = 0")
  case True
  then show ?thesis using assms by (simp add: sse4_loop_stop)
next
  case False
  have "sse4_loop input (16 * 0) (12 * 0) ([] @ replicate (length input) 0)
       = Inr ([] @ simd_quads (drop (16 * 0) input) @ replicate (length input - 12 * k) 0)"
    using False assms(1) by (intro sse4_loop_blocks [OF assms]) simp_all
  then show ?thesis
    using assms(1) by simp
qed


lemma store_quads:
  assumes "length q = 12" and "16 \<le> m" and "length done = out"
  shows "storeu (done @ replicate m 0) out (q @ [0, 0, 0, 0])
       = Inr ((done @ q) @ replicate (m - 12) 0)"
proof -
  have "[0, 0, 0, 0] @ replicate (m - 16) (0 :: byte) = replicate (m - 12) 0"
    unfolding four_zeros using assms(2) by (simp flip: replicate_add)
  then show ?thesis
    using assms by (simp add: storeu_def)
qed

lemma avx2_loop_stop: "length input \<le> pos \<Longrightarrow> avx2_loop input pos out ret = Inr ret"
  by (subst avx2_loop.simps) simp

lemma avx2_loop_step:
  assumes "pos + 32 \<le> length input" and "length input < 2 ^ 64"
    and "28 \<le> m" and "length done = out"
  shows "avx2_loop input pos out (done @ replicate m 0)
       = avx2_loop input (pos + 32) (out + 24)
           ((done @ simd_quads (take 32 (drop pos input))) @ replicate (m - 24) 0)"
proof -
  define in256 where "in256 = take 32 (drop pos input)"
  define lo hi where "lo = take 16 in256" and "hi = drop 16 in256"
  have len: "length in256 = 32"
    using assms(1) by (simp add: in256_def)
  have l4: "length lo = 4 * 4" "length hi = 4 * 4"
    using len by (simp_all add: lo_def hi_def)
  have ld: "loadu 32 input pos = Inr in256"
    using assms(1,2) by (simp add: loadu_def in256_def)
  have lq: "length (simd_quads lo) = 12" "length (simd_quads hi) = 12"
    using length_simd_quads [OF l4(1)] length_simd_quads [OF l4(2)] by simp_all
  have ex: "extracti128 (mm256_shuffle_epi8 (pack_ints (lookup_pshufb_bitmask in256)) avx2_shuf) 0
        = simd_quads lo @ [0, 0, 0, 0]"
      "extracti128 (mm256_shuffle_epi8 (pack_ints (lookup_pshufb_bitmask in256)) avx2_shuf) 1
        = simd_quads hi @ [0, 0, 0, 0]"
    using avx2_lanes [OF len] by (simp_all add: lo_def hi_def)
  have ex1: "extracti128 (mm256_shuffle_epi8 (pack_ints (lookup_pshufb_bitmask in256)) avx2_shuf)
        (Suc 0) = simd_quads hi @ [0, 0, 0, 0]"
    using ex(2) by simp
  have st1: "storeu (done @ replicate m 0) out (simd_quads lo @ [0, 0, 0, 0])
      = Inr ((done @ simd_quads lo) @ replicate (m - 12) 0)"
    using assms(3,4) by (intro store_quads lq) simp_all
  have st2: "storeu ((done @ simd_quads lo) @ replicate (m - 12) 0) (out + 12)
        (simd_quads hi @ [0, 0, 0, 0])
      = Inr (((done @ simd_quads lo) @ simd_quads hi) @ replicate (m - 12 - 12) 0)"
    using assms(3,4) lq by (intro store_quads) simp_all
  have "lo @ hi = in256"
    by (simp add: lo_def hi_def)
  then have sq: "simd_quads in256 = simd_quads lo @ simd_quads hi"
    using simd_quads_append [OF l4(1), of hi] by simp
  have nx: "size_t_add pos 32 = pos + 32"
    using assms(1,2) by (simp add: size_t_small)
  have "pos < length input"
    using assms(1) by simp
  then have "avx2_loop input pos out (done @ replicate m 0)
       = avx2_loop input (pos + 32) (out + 24)
           ((done @ simd_quads in256) @ replicate (m - 24) 0)"
    by (subst avx2_loop.simps)
      (simp add: ld Let_def ex ex1 st1 st2 nx sq del: append_assoc, simp)
  then show ?thesis
    by (simp only: in256_def)
qed

lemma avx2_loop_blocks:
  assumes "length input = 32 * k" and "length input < 2 ^ 64"
  shows "j + n = k \<Longrightarrow> length done = 24 * j \<Longrightarrow> 24 * n + 4 \<le> m \<Longrightarrow>
     avx2_loop input (32 * j) (24 * j) (done @ replicate m 0)
       = Inr (done @ simd_quads (drop (32 * j) input) @ replicate (m - 24 * n) 0)"
proof (induction n arbitrary: j "done" m)
  case 0
  then have "32 * j = length input" using assms(1) by simp
  then show ?case
    by (simp add: avx2_loop_stop)
next
  case (Suc n)
  let ?in = "take 32 (drop (32 * j) input)"
  have a: "32 * j + 32 \<le> length input"
    using Suc.prems(1) assms(1) by simp
  have len: "length ?in = 4 * 8"
    using a by simp
  have lq: "length (simd_quads ?in) = 24"
    using length_simd_quads [OF len] by simp
  have split: "simd_quads (drop (32 * j) input)
      = simd_quads ?in @ simd_quads (drop (32 * Suc j) input)"
  proof -
    have e: "32 * Suc j = 32 * j + 32" by simp
    have "drop (32 * j) input = ?in @ drop (32 * Suc j) input"
      unfolding e by (rule drop_chunk)
    then show ?thesis
      using simd_quads_append [OF len, of "drop (32 * Suc j) input"] by simp
  qed
  have "avx2_loop input (32 * j) (24 * j) (done @ replicate m 0)
      = avx2_loop input (32 * Suc j) (24 * Suc j)
          ((done @ simd_quads ?in) @ replicate (m - 24) 0)"
    using avx2_loop_step [OF a assms(2), of m "done" "24 * j"] Suc.prems(2,3)
    by (simp add: add.commute)
  also have "\<dots> = Inr ((done @ simd_quads ?in) @ simd_quads (drop (32 * Suc j) input)
       @ replicate (m - 24 - 24 * n) 0)"
    using Suc.prems lq by (intro Suc.IH) simp_all
  finally show ?case
    by (simp add: split)
qed

lemma avx2_loop_result:
  assumes "length input = 32 * k" and "length input < 2 ^ 64"
  shows "avx2_loop input 0 0 (replicate (length input) 0)
       = Inr (simd_quads input @ replicate (8 * k) 0)"
proof (cases "k = 0")
  case True
  then show ?thesis using assms by (simp add: avx2_loop_stop)
next
  case False
  have "avx2_loop input (32 * 0) (24 * 0) ([] @ replicate (length input) 0)
       = Inr ([] @ simd_quads (drop (32 * 0) input) @ replicate (length input - 24 * k) 0)"
    using False assms(1) by (intro avx2_loop_blocks [OF assms]) simp_all
  then show ?thesis
    using assms(1) by simp
qed

section \<open>The search for the padding\<close>

lemma padding_loop_stop:
  "i < size_t_sub n 3 \<Longrightarrow> padding_loop input n i p = Inr p"
  by (subst padding_loop.simps) simp

lemma padding_loop_step:
  assumes "size_t_sub n 3 \<le> i" and "i < length input" and "length input < 2 ^ 64" and "0 < i"
  shows "padding_loop input n i p
       = (if input ! i = of_char CHR ''='' then padding_loop input n (i - 1) (p + 1) else Inr p)"
proof -
  have "size_t_sub i 1 = i - 1"
    using assms by (simp add: size_t_small)
  then show ?thesis
    using assms by (subst padding_loop.simps) (simp add: vector_at_def)
qed

lemma last_three:
  assumes "4 \<le> length xs"
  obtains ys a b c where "xs = ys @ [a, b, c]" and "ys \<noteq> []"
proof -
  define ys where "ys = take (length xs - 3) xs"
  define zs where "zs = drop (length xs - 3) xs"
  have "length zs = 3" using assms by (simp add: zs_def)
  then obtain a b c where "zs = [a, b, c]"
    by (auto simp: numeral_eq_Suc length_Suc_conv)
  moreover have "xs = ys @ zs" by (simp add: ys_def zs_def)
  moreover have "ys \<noteq> []" using assms by (auto simp: ys_def)
  ultimately show ?thesis using that by blast
qed

lemma trailing_padding_last_three:
  "trailing_padding (ys @ [a, b, c])
     = (if c \<noteq> of_char CHR ''='' then 0
        else if b \<noteq> of_char CHR ''='' then 1
        else if a \<noteq> of_char CHR ''='' then 2
        else 3 + trailing_padding ys)"
  by (simp add: trailing_padding_def)

lemma padding_loop_count:
  assumes "4 \<le> length enc" and "length (enc @ zs) < 2 ^ 64"
  shows "padding_loop (enc @ zs) (length enc) (size_t_sub (length enc) 1) 0
       = Inr (min 3 (trailing_padding enc))"
proof -
  from assms(1) obtain ys a b c where enc: "enc = ys @ [a, b, c]" and ys: "ys \<noteq> []"
    by (rule last_three)
  let ?n = "length enc" and ?input = "enc @ zs"
  have n: "?n = length ys + 3" by (simp add: enc)
  have lt: "?n < 2 ^ 64" using assms(2) by simp
  have b3: "size_t_sub ?n 3 = length ys"
    using lt by (simp add: size_t_small n)
  have b1: "size_t_sub ?n 1 = length ys + 2"
    using lt by (simp add: size_t_small n)
  have at: "?input ! (length ys + 2) = c" "?input ! (length ys + 1) = b" "?input ! length ys = a"
    by (simp_all add: enc nth_append)
  have s1: "padding_loop ?input ?n (length ys + 2) 0
      = (if c = of_char CHR ''='' then padding_loop ?input ?n (length ys + 1) 1 else Inr 0)"
    using padding_loop_step [of ?n "length ys + 2" ?input 0] assms(2) b3 at
    by (simp add: n cong: if_cong)
  have s2: "padding_loop ?input ?n (length ys + 1) 1
      = (if b = of_char CHR ''='' then padding_loop ?input ?n (length ys) 2 else Inr 1)"
    using padding_loop_step [of ?n "length ys + 1" ?input 1] assms(2) b3 at
    by (simp add: n numeral_2_eq_2 cong: if_cong)
  have s3: "padding_loop ?input ?n (length ys) 2
      = (if a = of_char CHR ''='' then padding_loop ?input ?n (length ys - 1) 3 else Inr 2)"
    using padding_loop_step [of ?n "length ys" ?input 2] assms(2) b3 at ys
    by (simp add: n numeral_3_eq_3 numeral_2_eq_2 cong: if_cong)
  have s4: "padding_loop ?input ?n (length ys - 1) 3 = Inr 3"
    using ys b3 by (intro padding_loop_stop) simp
  show ?thesis
    unfolding b1 s1 s2 s3 s4
    by (simp add: enc trailing_padding_last_three)
qed

section \<open>Closed forms of the vector decoders\<close>

lemma length_resize [simp]: "length (resize v k) = k"
  by (simp add: resize_def)

lemma resize_take: "k \<le> length v \<Longrightarrow> resize (v @ w) k = take k v"
  by (simp add: resize_def)

lemma simd_quads_zeros: "simd_quads (replicate (4 * j) 0) = replicate (3 * j) 0"
proof (induction j)
  case 0
  then show ?case by simp
next
  case (Suc j)
  have "replicate (4 * Suc j) (0 :: byte) = 0 # 0 # 0 # 0 # replicate (4 * j) 0"
    using set1_epi8_quads [of j 0] by (simp add: set1_epi8_def)
  moreover have "lookup_value 0 = 0"
    by (simp add: lookup_value_def)
  moreover have "replicate (3 * Suc j) (0 :: byte) = replicate 3 0 @ replicate (3 * j) 0"
    by (simp flip: replicate_add)
  moreover have "replicate 3 (0 :: byte) = [0, 0, 0]"
    by (simp add: numeral_3_eq_3)
  ultimately show ?case
    by (simp add: Suc.IH quad_value_def quad_bytes_def)
qed

lemma counted_padding_le: "counted_padding enc \<le> 3"
  by (simp add: counted_padding_def)

lemma avx2_decode_resize:
  assumes "4 \<le> length enc" and "length enc + 32 < 2 ^ 64"
  shows "avx2_decode enc
       = Inr (resize (simd_quads (enc @ replicate ((length enc + 31) div 32 * 32 - length enc) 0)
                        @ replicate (8 * ((length enc + 31) div 32)) 0)
                (decoded_size (length enc - counted_padding enc)))"
proof -
  let ?n = "length enc"
  let ?k = "(?n + 31) div 32"
  let ?input = "enc @ replicate (?k * 32 - ?n) 0"
  have sz: "size_t_sub (size_t_add ?n 32) 1 AND size_t_of_int (- 32) = ?k * 32"
    using assms(2) by (rule padded_size32)
  have le: "?n \<le> ?k * 32"
    by simp
  have len: "length ?input = 32 * ?k"
    using le by simp
  have lt: "length ?input < 2 ^ 64"
    using assms(2) unfolding len by simp
  have mc: "memcpy (replicate (?k * 32) 0) enc = Inr ?input"
    using le by (simp add: memcpy_def)
  have pl: "padding_loop ?input ?n (size_t_sub ?n 1) 0 = Inr (counted_padding enc)"
    unfolding counted_padding_def using assms(1) lt by (rule padding_loop_count)
  have lp: "avx2_loop ?input 0 0 (replicate (length ?input) 0)
      = Inr (simd_quads ?input @ replicate (8 * ?k) 0)"
    using len lt by (rule avx2_loop_result)
  have sb: "size_t_sub ?n (counted_padding enc) = ?n - counted_padding enc"
    using assms counted_padding_le [of enc] by (intro size_t_small) simp_all
  show ?thesis
    unfolding avx2_decode_def Let_def sz mc sum.case pl lp sb ..
qed

lemma sse4_decode_resize:
  assumes "4 \<le> length enc" and "length enc + 16 < 2 ^ 64"
  shows "sse4_decode enc
       = Inr (resize (simd_quads (enc @ replicate ((length enc + 15) div 16 * 16 - length enc) 0)
                        @ replicate (4 * ((length enc + 15) div 16)) 0)
                (decoded_size (length enc - counted_padding enc)))"
proof -
  let ?n = "length enc"
  let ?k = "(?n + 15) div 16"
  let ?input = "enc @ replicate (?k * 16 - ?n) 0"
  have sz: "size_t_sub (size_t_add ?n 16) 1 AND size_t_of_int (- 16) = ?k * 16"
    using assms(2) by (rule padded_size16)
  have le: "?n \<le> ?k * 16"
    by simp
  have len: "length ?input = 16 * ?k"
    using le by simp
  have lt: "length ?input < 2 ^ 64"
    using assms(2) unfolding len by simp
  have mc: "memcpy (replicate (?k * 16) 0) enc = Inr ?input"
    using le by (simp add: memcpy_def)
  have pl: "padding_loop ?input ?n (size_t_sub ?n 1) 0 = Inr (counted_padding enc)"
    unfolding counted_padding_def using assms(1) lt by (rule padding_loop_count)
  have lp: "sse4_loop ?input 0 0 (replicate (length ?input) 0)
      = Inr (simd_quads ?input @ replicate (4 * ?k) 0)"
    using len lt by (rule sse4_loop_result)
  have sb: "size_t_sub ?n (counted_padding enc) = ?n - counted_padding enc"
    using assms counted_padding_le [of enc] by (intro size_t_small) simp_all
  show ?thesis
    unfolding sse4_decode_def Let_def sz mc sum.case pl lp sb ..
qed

section \<open>What both vector decoders return\<close>

lemma quad_fill: "(n :: nat) + (4 - n mod 4) mod 4 = 4 * ((n + 3) div 4)"
proof -
  define r m where "r = n mod 4" and "m = n div 4"
  have n: "n = 4 * m + r"
    by (simp add: r_def m_def)
  have r: "r < 4"
    by (simp add: r_def)
  have d: "(4 * m + r + 3) div 4 = m + (r + 3) div 4"
    by simp
  have md: "(4 * m + r) mod 4 = r"
    using r by simp
  from r consider "r = 0" | "r = 1" | "r = 2" | "r = 3"
    by (cases r rule: nat.exhaust) (auto simp: less_Suc_eq numeral_eq_Suc)
  then have "4 * m + r + (4 - r) mod 4 = 4 * (m + (r + 3) div 4)"
    by cases simp_all
  then show ?thesis
    unfolding n d md .
qed


lemma quad_count_le: "(n :: nat) \<le> 4 * s \<Longrightarrow> (n + 3) div 4 \<le> s"
  by presburger

lemma quad_fill_ge: "(n :: nat) \<le> 4 * ((n + 3) div 4)"
proof -
  have "n \<le> n + (4 - n mod 4) mod 4"
    by (rule le_add1)
  then show ?thesis
    unfolding quad_fill .
qed

lemma simd_size_fits: "3 * ((n :: nat) - p) div 4 \<le> 3 * ((n + 3) div 4)"
proof -
  define q where "q = (n + 3) div 4"
  have "n \<le> 4 * q"
    unfolding q_def by (rule quad_fill_ge)
  then have "3 * (n - p) \<le> 4 * (3 * q)"
    by simp
  then have "3 * (n - p) div 4 \<le> 4 * (3 * q) div 4"
    by (rule div_le_mono)
  then show ?thesis
    unfolding q_def by simp
qed

lemma round32: "(n::nat) \<le> (n + 31) div 32 * 32" "4 dvd ((n::nat) + 31) div 32 * 32"
  by presburger+

lemma round16: "(n::nat) \<le> (n + 15) div 16 * 16" "4 dvd ((n::nat) + 15) div 16 * 16"
  by presburger+

lemma length_pad_to_quads: "length (pad_to_quads enc) = 4 * ((length enc + 3) div 4)"
  unfolding pad_to_quads_def by (simp add: quad_fill)

lemma resize_simd:
  assumes "length enc \<le> sz" and "4 dvd sz" and "d \<le> 3 * ((length enc + 3) div 4)"
  shows "resize (simd_quads (enc @ replicate (sz - length enc) 0) @ replicate m 0) d
       = take d (simd_quads (pad_to_quads enc))"
proof -
  define n z0 q where "n = length enc" and "z0 = (4 - n mod 4) mod 4" and "q = (n + 3) div 4"
  from assms(2) obtain s where s: "sz = 4 * s" by (auto simp: dvd_def)
  have q: "n + z0 = 4 * q"
    unfolding z0_def q_def by (rule quad_fill)
  have qs: "q \<le> s"
    unfolding q_def using assms(1) s by (intro quad_count_le) (simp add: n_def)
  have "n + (z0 + 4 * (s - q)) = sz"
    using q qs s by simp
  then have z: "sz - n = z0 + 4 * (s - q)"
    by simp
  have pq: "pad_to_quads enc = enc @ replicate z0 0"
    by (simp add: pad_to_quads_def z0_def n_def)
  have lp: "length (pad_to_quads enc) = 4 * q"
    unfolding q_def n_def by (rule length_pad_to_quads)
  have "enc @ replicate (sz - n) 0 = pad_to_quads enc @ replicate (4 * (s - q)) 0"
    unfolding z pq by (simp add: replicate_add)
  then have "simd_quads (enc @ replicate (sz - n) 0)
      = simd_quads (pad_to_quads enc) @ replicate (3 * (s - q)) 0"
    using simd_quads_append [OF lp, of "replicate (4 * (s - q)) 0"]
    by (simp add: simd_quads_zeros)
  moreover have "d \<le> length (simd_quads (pad_to_quads enc))"
    using length_simd_quads [OF lp] assms(3) by (simp add: q_def n_def)
  ultimately show ?thesis
    by (simp add: resize_take n_def)
qed

lemma vector_decoders_closed:
  assumes "4 \<le> length enc" and "3 * length enc < 2 ^ 24"
  shows "avx2_decode enc = Inr (simd_decoded enc)" and "sse4_decode enc = Inr (simd_decoded enc)"
proof -
  let ?n = "length enc" and ?p = "counted_padding enc"
  have big: "?n + 32 < 2 ^ 64" "?n + 16 < 2 ^ 64"
    using assms(2) by simp_all
  have "3 * (?n - ?p) < 2 ^ 24"
    using assms(2) by simp
  then have d: "decoded_size (?n - ?p) = 3 * (?n - ?p) div 4"
    by (rule decoded_size_exact)
  have fit: "3 * (?n - ?p) div 4 \<le> 3 * ((?n + 3) div 4)"
    by (rule simd_size_fits)
  show "avx2_decode enc = Inr (simd_decoded enc)"
    unfolding avx2_decode_resize [OF assms(1) big(1)] d resize_simd [OF round32 fit]
      simd_decoded_def ..
  show "sse4_decode enc = Inr (simd_decoded enc)"
    unfolding sse4_decode_resize [OF assms(1) big(2)] d resize_simd [OF round16 fit]
      simd_decoded_def ..
qed

lemma length_simd_decoded:
  "length (simd_decoded enc) = 3 * (length enc - counted_padding enc) div 4"
  using length_simd_quads [OF length_pad_to_quads, of enc]
    simd_size_fits [of "length enc" "counted_padding enc"]
  by (simp add: simd_decoded_def)

section \<open>The size of the output of the vector decoders\<close>

text \<open>
  C5 at the input \<open>A=\<close>. The lower bound \<open>encodedSize - 3\<close> of the search wraps around,
  the search does not run and counts no padding; both vector decoders return one byte,
  where three quarters of the length without the padding is 0 and the scalar decoder
  returns no byte.
\<close>

theorem output_size_short_input:
  "avx2_decode (bytes_of ''A='') = Inr [4]
   \<and> sse4_decode (bytes_of ''A='') = Inr [4]
   \<and> fallback_decode (bytes_of ''A='') = Inr []
   \<and> trailing_padding (bytes_of ''A='') = 1
   \<and> 3 * (length (bytes_of ''A='') - trailing_padding (bytes_of ''A='')) div 4 = 0"
  by (simp add: avx2_decode_def sse4_decode_def fallback_decode_def fallback_flush_def
      eightBitChars_of_def eval_simps float_defs simd_defs scalar_defs trailing_padding_def)

text \<open>
  With three characters the bound of the search is 0 and the padding is counted, as it
  is with one character and no padding: there the size is three quarters of the length
  without the padding.
\<close>

lemma output_size_three_characters:
  "avx2_decode (bytes_of ''ABC'') = Inr [0, 16]"
  "sse4_decode (bytes_of ''ABC'') = Inr [0, 16]"
  "avx2_decode (bytes_of ''AB='') = Inr [0]"
  "sse4_decode (bytes_of ''AB='') = Inr [0]"
  "avx2_decode (bytes_of ''A'') = Inr []"
  "sse4_decode (bytes_of ''A'') = Inr []"
  by (simp_all add: avx2_decode_def sse4_decode_def eval_simps float_defs simd_defs)

text \<open>
  From four characters on the search for the padding works as meant. On an input of
  at least 4 characters, short enough for the single-precision product to be exact (three times the length below \<open>2 ^ 24\<close>), both
  vector decoders return a sequence of exactly \<open>\<lfloor>0.75 * (length - padding)\<rfloor>\<close> bytes,
  where the padding is the number of trailing \<open>=\<close>, counted up to 3.
\<close>

theorem vector_output_size:
  assumes "4 \<le> length encoded" and "3 * length encoded < 2 ^ 24"
  shows "(\<exists>out. avx2_decode encoded = Inr out
            \<and> length out = 3 * (length encoded - min 3 (trailing_padding encoded)) div 4)
       \<and> (\<exists>out. sse4_decode encoded = Inr out
            \<and> length out = 3 * (length encoded - min 3 (trailing_padding encoded)) div 4)"
  using vector_decoders_closed [OF assms] length_simd_decoded [of encoded]
  by (simp add: counted_padding_def)

theorem vector_output_size_witness:
  "(\<exists>out. avx2_decode (bytes_of ''QUJDRA=='') = Inr out \<and> length out = 4)
   \<and> (\<exists>out. sse4_decode (bytes_of ''QUJDRA=='') = Inr out \<and> length out = 4)"
  using vector_output_size [of "bytes_of ''QUJDRA==''"]
  by (simp add: bytes_of_def trailing_padding_def)

text \<open>
  Beyond that length the single-precision product rounds: for 5592409 characters
  without padding the size is 4194307, one more than \<open>\<lfloor>0.75 * 5592409\<rfloor>\<close>.
\<close>

lemma vector_output_size_any:
  assumes "4 \<le> length encoded" and "length encoded + 32 < 2 ^ 64"
  shows "\<exists>out. avx2_decode encoded = Inr out
           \<and> length out = decoded_size (length encoded - min 3 (trailing_padding encoded))"
    and "\<exists>out. sse4_decode encoded = Inr out
           \<and> length out = decoded_size (length encoded - min 3 (trailing_padding encoded))"
  using avx2_decode_resize [OF assms] sse4_decode_resize [OF assms(1)] assms(2)
  by (simp_all add: counted_padding_def)

lemma decoded_size_rounds:
  "decoded_size 5592409 = 4194307" "3 * 5592409 div 4 = (4194306 :: nat)"
  by (simp_all add: float_defs)

lemma vector_output_size_large:
  "\<exists>out. avx2_decode (replicate 5592409 (of_char CHR ''A'')) = Inr out \<and> length out = 4194307"
  using vector_output_size_any(1) [of "replicate 5592409 (of_char CHR ''A'')"]
  by (simp add: trailing_padding_def decoded_size_rounds)

section \<open>The arithmetic of one group of four characters\<close>

lemma and_15: "(x :: nat) AND 15 = x mod 16"
proof -
  have "(15 :: nat) = mask 4"
    by (simp add: mask_eq_exp_minus_1)
  then show ?thesis
    by (simp only: take_bit_eq_mask [symmetric] take_bit_eq_mod) simp
qed

lemma and_3: "(x :: nat) AND 3 = x mod 4"
proof -
  have "(3 :: nat) = mask 2"
    by (simp add: mask_eq_exp_minus_1)
  then show ?thesis
    by (simp only: take_bit_eq_mask [symmetric] take_bit_eq_mod) simp
qed

lemma and_48: "drop_bit 4 ((x :: nat) AND 48) = x div 16 mod 4"
proof -
  have "drop_bit 4 (x AND 48) = drop_bit 4 x AND 3"
    by simp
  also have "\<dots> = drop_bit 4 x mod 4"
    by (rule and_3)
  also have "\<dots> = x div 16 mod 4"
    by (simp add: drop_bit_eq_div)
  finally show ?thesis .
qed

lemma and_60: "drop_bit 2 ((x :: nat) AND 60) = x div 4 mod 16"
proof -
  have "drop_bit 2 (x AND 60) = drop_bit 2 x AND 15"
    by simp
  also have "\<dots> = drop_bit 2 x mod 16"
    by (rule and_15)
  also have "\<dots> = x div 4 mod 16"
    by (simp add: drop_bit_eq_div)
  finally show ?thesis .
qed

lemma unat_up: "unat (ucast (s :: 8 word) :: 32 word) = unat s"
  by (simp add: unsigned_ucast_eq take_bit_nat_eq_self unat_byte_bound [THEN less_trans])

lemma unat_push_small:
  "unat (w :: 32 word) * 2 ^ k < 2 ^ 32 \<Longrightarrow> unat (push_bit k w) = unat w * 2 ^ k"
proof -
  assume a: "unat w * 2 ^ k < 2 ^ 32"
  have "unat (push_bit k w) = take_bit LENGTH(32) (push_bit k (unat w))"
    by (rule unsigned_push_bit_eq)
  also have "push_bit k (unat w) = unat w * 2 ^ k"
    by (rule push_bit_eq_mult)
  also have "take_bit LENGTH(32) (unat w * 2 ^ k) = unat w * 2 ^ k"
    using a by (simp add: take_bit_nat_eq_self)
  finally show ?thesis .
qed

lemma b1: "unat (push_bit 2 (ucast (s :: 8 word) :: 32 word)) = unat s * 4"
  using unat_push_small [of "ucast s" 2] unat_byte_bound [of s] by (simp add: unat_up)

lemma b2: "unat (drop_bit 4 ((ucast (s :: 8 word) :: 32 word) AND 0x30)) = unat s div 16 mod 4"
proof -
  have "unat ((ucast s :: 32 word) AND 0x30) = unat s AND 48"
    by (simp add: unsigned_and_eq unat_up)
  then have "unat (drop_bit 4 ((ucast s :: 32 word) AND 0x30)) = drop_bit 4 (unat s AND 48)"
    by (simp only: unat_drop_bit_eq)
  then show ?thesis
    by (simp only: and_48)
qed

lemma b3: "unat (push_bit 4 ((ucast (s :: 8 word) :: 32 word) AND 0xf)) = unat s mod 16 * 16"
proof -
  have "unat ((ucast s :: 32 word) AND 0xf) = unat s mod 16"
    by (simp add: unsigned_and_eq unat_up and_15)
  moreover have "unat s mod 16 < 16" by simp
  ultimately show ?thesis
    using unat_push_small [of "(ucast s :: 32 word) AND 0xf" 4] by simp
qed

lemma b4: "unat (drop_bit 2 ((ucast (s :: 8 word) :: 32 word) AND 0x3c)) = unat s div 4 mod 16"
proof -
  have "unat ((ucast s :: 32 word) AND 0x3c) = unat s AND 60"
    by (simp add: unsigned_and_eq unat_up)
  then have "unat (drop_bit 2 ((ucast s :: 32 word) AND 0x3c)) = drop_bit 2 (unat s AND 60)"
    by (simp only: unat_drop_bit_eq)
  then show ?thesis
    by (simp only: and_60)
qed

lemma b5: "unat (push_bit 6 ((ucast (s :: 8 word) :: 32 word) AND 0x3)) = unat s mod 4 * 64"
proof -
  have "unat ((ucast s :: 32 word) AND 0x3) = unat s mod 4"
    by (simp add: unsigned_and_eq unat_up and_3)
  moreover have "unat s mod 4 < 4" by simp
  ultimately show ?thesis
    using unat_push_small [of "(ucast s :: 32 word) AND 0x3" 6] by simp
qed


lemma ucast_sum:
  assumes "unat (a :: 32 word) = x" and "unat (b :: 32 word) = y" and "x + y < 2 ^ 32"
  shows "(ucast (a + b) :: 8 word) = of_nat (x + y)"
proof -
  have "unat a + unat b < 2 ^ LENGTH(32)"
    using assms by simp
  then have "unat (a + b) = unat a + unat b"
    by (simp only: unat_add_lem)
  then have "(of_nat (unat (a + b)) :: 8 word) = of_nat (x + y)"
    using assms(1,2) by (simp only:)
  then show ?thesis
    by (simp only: of_nat_unat)
qed

lemma div_mod_parts:
  fixes r q c :: nat
  assumes "r < c"
  shows "(r + q * c) div c = q" and "(r + q * c) mod c = r"
  using assms by simp_all

lemma quad_top:
  fixes v0 v1 v2 v3 :: nat
  assumes "v1 mod 16 * 4096 + v2 * 64 + v3 < 65536"
  shows "((v0 * 64 + v1) * 4096 + (v2 * 64 + v3)) div 65536 = v0 * 4 + v1 div 16"
proof -
  define h l where "h = v1 div 16" and "l = v1 mod 16"
  have v1: "v1 = 16 * h + l"
    by (simp add: h_def l_def)
  have e: "(v0 * 64 + v1) * 4096 + (v2 * 64 + v3)
      = (l * 4096 + v2 * 64 + v3) + (v0 * 4 + h) * 65536"
    unfolding v1 by (simp add: algebra_simps)
  have b: "l * 4096 + v2 * 64 + v3 < 65536"
    using assms by (simp add: l_def)
  show ?thesis
    by (simp only: e) (simp only: div_mod_parts(1) [OF b], simp only: h_def)
qed

lemma quad_mid:
  fixes v0 v1 v2 v3 :: nat
  assumes "v2 < 64" and "v2 mod 4 * 64 + v3 < 256"
  shows "((v0 * 64 + v1) * 4096 + (v2 * 64 + v3)) div 256 mod 256
           = v1 mod 16 * 16 + v2 div 4"
proof -
  define h l where "h = v1 div 16" and "l = v1 mod 16"
  define h2 l2 where "h2 = v2 div 4" and "l2 = v2 mod 4"
  have v1: "v1 = 16 * h + l"
    by (simp add: h_def l_def)
  have v2: "v2 = 4 * h2 + l2"
    by (simp add: h2_def l2_def)
  have l: "l < 16"
    by (simp add: l_def)
  have h2: "h2 < 16"
    using assms(1) by (simp add: h2_def)
  have e: "(v0 * 64 + v1) * 4096 + (v2 * 64 + v3)
      = (l2 * 64 + v3) + ((l * 16 + h2) + (v0 * 4 + h) * 256) * 256"
    unfolding v1 v2 by (simp add: algebra_simps)
  have b: "l2 * 64 + v3 < 256"
    using assms(2) by (simp add: l2_def)
  have c: "l * 16 + h2 < 256"
    using l h2 by simp
  show ?thesis
    by (simp only: e)
      (simp only: div_mod_parts(1) [OF b], simp only: div_mod_parts(2) [OF c],
        simp only: l_def h2_def)
qed

lemma quad_low:
  fixes v0 v1 v2 v3 :: nat
  assumes "v2 mod 4 * 64 + v3 < 256"
  shows "((v0 * 64 + v1) * 4096 + (v2 * 64 + v3)) mod 256 = v2 mod 4 * 64 + v3"
proof -
  define h2 l2 where "h2 = v2 div 4" and "l2 = v2 mod 4"
  have v2: "v2 = 4 * h2 + l2"
    by (simp add: h2_def l2_def)
  have e: "(v0 * 64 + v1) * 4096 + (v2 * 64 + v3)
      = (l2 * 64 + v3) + ((v0 * 64 + v1) * 16 + h2) * 256"
    unfolding v2 by (simp add: algebra_simps)
  have b: "l2 * 64 + v3 < 256"
    using assms by (simp add: l2_def)
  show ?thesis
    by (simp only: e) (simp only: div_mod_parts(2) [OF b], simp only: l2_def)
qed

lemma byte_of_nat_mod: "(of_nat (n mod 256) :: 8 word) = of_nat n"
  by (simp add: word_of_nat_eq_iff take_bit_eq_mod)

lemma eightBitChars_nat:
  "eightBitChars_of [s0, s1, s2, s3]
     = [of_nat (unat s0 * 4 + unat s1 div 16 mod 4),
        of_nat (unat s1 mod 16 * 16 + unat s2 div 4 mod 16),
        of_nat (unat s2 mod 4 * 64 + unat s3)]"
proof -
  have s: "unat s0 < 256" "unat s3 < 256"
    by (rule unat_byte_bound)+
  have m: "unat s1 div 16 mod 4 < 4" "unat s1 mod 16 < 16" "unat s2 div 4 mod 16 < 16"
    "unat s2 mod 4 < 4"
    by simp_all
  have e0: "(ucast (push_bit 2 (ucast s0 :: 32 word) + drop_bit 4 ((ucast s1 :: 32 word) AND 0x30)) :: byte)
      = of_nat (unat s0 * 4 + unat s1 div 16 mod 4)"
    using s(1) m(1) by (intro ucast_sum b1 b2) simp
  have e1: "(ucast (push_bit 4 ((ucast s1 :: 32 word) AND 0xf)
               + drop_bit 2 ((ucast s2 :: 32 word) AND 0x3c)) :: byte)
      = of_nat (unat s1 mod 16 * 16 + unat s2 div 4 mod 16)"
    using m(2,3) by (intro ucast_sum b3 b4) simp
  have e2: "(ucast (push_bit 6 ((ucast s2 :: 32 word) AND 0x3) + (ucast s3 :: 32 word)) :: byte)
      = of_nat (unat s2 mod 4 * 64 + unat s3)"
    using m(4) s(2) by (intro ucast_sum b5 unat_up) simp
  have n: "[s0, s1, s2, s3] ! 0 = s0" "[s0, s1, s2, s3] ! 1 = s1" "[s0, s1, s2, s3] ! 2 = s2"
    "[s0, s1, s2, s3] ! 3 = s3"
    by simp_all
  show ?thesis
    unfolding eightBitChars_of_def promote_def n e0 e1 e2 ..
qed

section \<open>Where the packings of one group agree\<close>

lemma small_div_mod:
  fixes v :: nat
  assumes "v < 64"
  shows "v div 16 mod 4 = v div 16" and "v div 4 mod 16 = v div 4"
  using assms by simp_all

lemma quad_bytes_full:
  assumes "unat v0 < 64" and "unat v1 < 64" and "unat v2 < 64" and "unat v3 < 64"
  shows "quad_bytes (quad_value v0 v1 v2 v3) = eightBitChars_of [v0, v1, v2, v3]"
proof -
  define n where "n = quad_value v0 v1 v2 v3"
  define l1 l2 where "l1 = unat v1 mod 16" and "l2 = unat v2 mod 4"
  have l: "l1 < 16" "l2 < 4"
    by (simp_all add: l1_def l2_def)
  have t: "l1 * 4096 + unat v2 * 64 + unat v3 < 65536"
    using l(1) assms(3,4) by simp
  have m: "l2 * 64 + unat v3 < 256"
    using l(2) assms(4) by simp
  have top: "n div 65536 = unat v0 * 4 + unat v1 div 16"
    unfolding n_def quad_value_def using t unfolding l1_def by (rule quad_top)
  have mid: "n div 256 mod 256 = unat v1 mod 16 * 16 + unat v2 div 4"
    unfolding n_def quad_value_def using assms(3) m unfolding l2_def by (rule quad_mid)
  have low: "n mod 256 = unat v2 mod 4 * 64 + unat v3"
    unfolding n_def quad_value_def using m unfolding l2_def by (rule quad_low)
  have "quad_bytes n = [of_nat (n div 65536), of_nat (n div 256 mod 256), of_nat (n mod 256)]"
    by (simp only: quad_bytes_def byte_of_nat_mod)
  also have "\<dots> = eightBitChars_of [v0, v1, v2, v3]"
    by (simp only: top mid low eightBitChars_nat small_div_mod [OF assms(2)]
        small_div_mod [OF assms(3)])
  finally show ?thesis
    unfolding n_def .
qed

lemma quad_bytes_one_pad:
  assumes "unat v0 < 64" and "unat v1 < 64" and "unat v2 < 64" and "unat v2 mod 4 \<noteq> 3"
  shows "take 2 (quad_bytes (quad_value v0 v1 v2 65)) = take 2 (eightBitChars_of [v0, v1, v2, s3])"
proof -
  define n where "n = quad_value v0 v1 v2 65"
  define l1 l2 where "l1 = unat v1 mod 16" and "l2 = unat v2 mod 4"
  have "l2 < 4"
    by (simp add: l2_def)
  then have l2: "l2 \<le> 2"
    using assms(4) by (simp add: l2_def)
  have l1: "l1 < 16"
    by (simp add: l1_def)
  have "unat v2 \<noteq> 63"
    using assms(4) by auto
  then have v2: "unat v2 \<le> 62"
    using assms(3) by simp
  have u: "unat (65 :: byte) = 65"
    by simp
  have t: "l1 * 4096 + unat v2 * 64 + unat (65 :: byte) < 65536"
    using l1 v2 by (simp add: u)
  have m: "l2 * 64 + unat (65 :: byte) < 256"
    using l2 by (simp add: u)
  have top: "n div 65536 = unat v0 * 4 + unat v1 div 16"
    unfolding n_def quad_value_def using t unfolding l1_def by (rule quad_top)
  have mid: "n div 256 mod 256 = unat v1 mod 16 * 16 + unat v2 div 4"
    unfolding n_def quad_value_def using assms(3) m unfolding l2_def by (rule quad_mid)
  have "take 2 (quad_bytes n) = [of_nat (n div 65536), of_nat (n div 256 mod 256)]"
    by (simp add: quad_bytes_def byte_of_nat_mod)
  also have "\<dots> = take 2 (eightBitChars_of [v0, v1, v2, s3])"
    by (simp only: top mid eightBitChars_nat small_div_mod [OF assms(2)]
        small_div_mod [OF assms(3)]) simp
  finally show ?thesis
    unfolding n_def .
qed

lemma quad_bytes_two_pad:
  assumes "unat v0 < 64" and "unat v1 < 64" and "unat v1 mod 16 \<noteq> 15"
  shows "take 1 (quad_bytes (quad_value v0 v1 65 65)) = take 1 (eightBitChars_of [v0, v1, s2, s3])"
proof -
  define n where "n = quad_value v0 v1 65 65"
  define l1 where "l1 = unat v1 mod 16"
  have "l1 < 16"
    by (simp add: l1_def)
  then have l1: "l1 \<le> 14"
    using assms(3) by (simp add: l1_def)
  have u: "unat (65 :: byte) = 65"
    by simp
  have t: "l1 * 4096 + unat (65 :: byte) * 64 + unat (65 :: byte) < 65536"
    using l1 by (simp add: u)
  have top: "n div 65536 = unat v0 * 4 + unat v1 div 16"
    unfolding n_def quad_value_def using t unfolding l1_def by (rule quad_top)
  have "take 1 (quad_bytes n) = [of_nat (n div 65536)]"
    by (simp add: quad_bytes_def)
  also have "\<dots> = take 1 (eightBitChars_of [v0, v1, s2, s3])"
    by (simp only: top eightBitChars_nat small_div_mod [OF assms(2)]) simp
  finally show ?thesis
    unfolding n_def .
qed

section \<open>The alphabet\<close>

lemma alphabet_char_values:
  assumes "c \<in> set base64_chars"
  shows "lookup_value c = sextet c" and "unat (sextet c) < 64" and "c \<noteq> of_char CHR ''=''"
  using assms
  by (auto simp: base64_chars_def bytes_of_def lookup_value_def sextet_def string_find_def)

lemma lookup_value_pad: "lookup_value (of_char CHR ''='') = 65"
  by (simp add: lookup_value_def)

lemma sextet_zero: "sextet 0 = 255"
  by (simp add: sextet_def base64_chars_def bytes_of_def string_find_def npos_def)

lemma find_all_sextet: "find_all s = map sextet s"
  by (simp add: find_all_def sextet_def)

lemma simd_scalar_quads:
  "length body = 4 * k \<Longrightarrow> list_all (\<lambda>c. c \<in> set base64_chars) body \<Longrightarrow>
     simd_quads body = scalar_quads body"
proof (induction k arbitrary: body)
  case 0
  then show ?case by simp
next
  case (Suc k)
  from length_quads [OF Suc.prems(1)]
  obtain c0 c1 c2 c3 rest where body: "body = c0 # c1 # c2 # c3 # rest"
    and rest: "length rest = 4 * k"
    by blast
  have a: "c0 \<in> set base64_chars" "c1 \<in> set base64_chars" "c2 \<in> set base64_chars"
    "c3 \<in> set base64_chars" "list_all (\<lambda>c. c \<in> set base64_chars) rest"
    using Suc.prems(2) by (simp_all add: body)
  have "quad_bytes (quad_value (sextet c0) (sextet c1) (sextet c2) (sextet c3))
      = eightBitChars_of [sextet c0, sextet c1, sextet c2, sextet c3]"
    by (intro quad_bytes_full alphabet_char_values(2) a)
  then show ?case
    by (simp add: body alphabet_char_values(1) a Suc.IH [OF rest a(5)])
qed

section \<open>The scalar loop\<close>

lemma fallback_loop_list:
  "pos + in_len = length enc \<Longrightarrow>
     fallback_loop enc in_len pos i six ret = Inr (scalar_loop (drop pos enc) i six ret)"
proof (induction in_len arbitrary: pos i six ret)
  case 0
  then show ?case
    by (subst fallback_loop.simps) simp
next
  case (Suc in_len)
  then have pos: "pos < length enc"
    by simp
  then have d: "drop pos enc = enc ! pos # drop (Suc pos) enc"
    by (simp add: Cons_nth_drop_Suc)
  have at: "string_view_at enc pos = Inr (enc ! pos)"
    using pos by (simp add: string_view_at_def)
  have nx: "Suc pos + in_len = length enc"
    using Suc.prems by simp
  show ?case
    by (subst fallback_loop.simps) (simp add: at d Let_def Suc.IH [OF nx])
qed

lemma length_4:
  assumes "length xs = 4"
  obtains a b c d where "xs = [a, b, c, d]"
proof -
  from assms have "length xs = 4 * Suc 0" by simp
  from length_quads [OF this] obtain a b c d r
    where "xs = a # b # c # d # r" "length r = 4 * 0" by auto
  then have "xs = [a, b, c, d]" by simp
  then show ?thesis by (rule that)
qed

lemma scalar_loop_quad:
  assumes "length six = 4"
    and "c0 \<noteq> of_char CHR ''=''" and "c1 \<noteq> of_char CHR ''=''"
    and "c2 \<noteq> of_char CHR ''=''" and "c3 \<noteq> of_char CHR ''=''"
  shows "scalar_loop (c0 # c1 # c2 # c3 # cs) 0 six ret
       = scalar_loop cs 0 [sextet c0, sextet c1, sextet c2, sextet c3]
           (ret @ eightBitChars_of [sextet c0, sextet c1, sextet c2, sextet c3])"
proof -
  from assms(1) obtain a b c d where six: "six = [a, b, c, d]"
    by (rule length_4)
  show ?thesis
    using assms(2-5) by (simp add: six find_all_sextet numeral_eq_Suc)
qed

lemma scalar_loop_quads:
  "length body = 4 * k \<Longrightarrow> list_all (\<lambda>c. c \<noteq> of_char CHR ''='') body \<Longrightarrow> length six = 4 \<Longrightarrow>
     \<exists>six'. length six' = 4
        \<and> scalar_loop (body @ rest) 0 six ret = scalar_loop rest 0 six' (ret @ scalar_quads body)"
proof (induction k arbitrary: body six ret)
  case 0
  then show ?case by auto
next
  case (Suc k)
  from length_quads [OF Suc.prems(1)]
  obtain c0 c1 c2 c3 tl where body: "body = c0 # c1 # c2 # c3 # tl"
    and tl: "length tl = 4 * k"
    by blast
  have a: "c0 \<noteq> of_char CHR ''=''" "c1 \<noteq> of_char CHR ''=''" "c2 \<noteq> of_char CHR ''=''"
    "c3 \<noteq> of_char CHR ''=''" "list_all (\<lambda>c. c \<noteq> of_char CHR ''='') tl"
    using Suc.prems(2) by (simp_all add: body)
  let ?six = "[sextet c0, sextet c1, sextet c2, sextet c3]"
  have "length ?six = 4" by simp
  from Suc.IH [OF tl a(5) this, of "ret @ eightBitChars_of ?six"]
  obtain six' where "length six' = 4"
    and "scalar_loop (tl @ rest) 0 ?six (ret @ eightBitChars_of ?six)
       = scalar_loop rest 0 six' ((ret @ eightBitChars_of ?six) @ scalar_quads tl)"
    by blast
  moreover have "scalar_loop (body @ rest) 0 six ret
      = scalar_loop (tl @ rest) 0 ?six (ret @ eightBitChars_of ?six)"
    unfolding body append_Cons by (rule scalar_loop_quad [OF Suc.prems(3) a(1-4)])
  ultimately show ?case
    by (auto simp: body)
qed

lemma scalar_tail_none:
  "fallback_flush (fst (scalar_loop [] 0 six ret)) (fst (snd (scalar_loop [] 0 six ret)))
     (snd (snd (scalar_loop [] 0 six ret))) = ret"
  by (simp add: fallback_flush_def)

lemma scalar_tail_one_pad:
  assumes "length six = 4"
    and "c0 \<noteq> of_char CHR ''=''" and "c1 \<noteq> of_char CHR ''=''" and "c2 \<noteq> of_char CHR ''=''"
  shows "(case scalar_loop [c0, c1, c2, of_char CHR ''=''] 0 six ret of
            (i, s, r) \<Rightarrow> fallback_flush i s r)
       = ret @ take 2 (eightBitChars_of [sextet c0, sextet c1, sextet c2, sextet 0])"
proof -
  from assms(1) obtain a b c d where six: "six = [a, b, c, d]"
    by (rule length_4)
  show ?thesis
    using assms(2-4)
    by (simp add: six fallback_flush_def find_all_sextet numeral_eq_Suc upt_rec)
qed

lemma scalar_tail_two_pad:
  assumes "length six = 4"
    and "c0 \<noteq> of_char CHR ''=''" and "c1 \<noteq> of_char CHR ''=''"
  shows "(case scalar_loop [c0, c1, of_char CHR ''='', of_char CHR ''=''] 0 six ret of
            (i, s, r) \<Rightarrow> fallback_flush i s r)
       = ret @ take 1 (eightBitChars_of [sextet c0, sextet c1, sextet 0, sextet 0])"
proof -
  from assms(1) obtain a b c d where six: "six = [a, b, c, d]"
    by (rule length_4)
  show ?thesis
    using assms(2-3)
    by (simp add: six fallback_flush_def find_all_sextet numeral_eq_Suc upt_rec)
qed

section \<open>What the scalar decoder returns\<close>

lemma fallback_decode_scalar_loop:
  "fallback_decode enc
     = Inr (case scalar_loop enc 0 [0, 0, 0, 0] [] of (i, s, r) \<Rightarrow> fallback_flush i s r)"
  using fallback_loop_list [of 0 "length enc" enc 0 "[0, 0, 0, 0]" "[]"]
  by (simp add: fallback_decode_def split: prod.splits)

lemma fallback_decode_no_pad:
  assumes "length body = 4 * k" and "list_all (\<lambda>c. c \<noteq> of_char CHR ''='') body"
  shows "fallback_decode body = Inr (scalar_quads body)"
proof -
  from scalar_loop_quads [OF assms, of "[0, 0, 0, 0]" "[]" "[]"]
  obtain six' where "scalar_loop body 0 [0, 0, 0, 0] [] = scalar_loop [] 0 six' (scalar_quads body)"
    by auto
  then show ?thesis
    by (simp add: fallback_decode_scalar_loop fallback_flush_def)
qed

lemma fallback_decode_one_pad:
  assumes "length body = 4 * k" and "list_all (\<lambda>c. c \<noteq> of_char CHR ''='') body"
    and "c0 \<noteq> of_char CHR ''=''" and "c1 \<noteq> of_char CHR ''=''" and "c2 \<noteq> of_char CHR ''=''"
  shows "fallback_decode (body @ [c0, c1, c2, of_char CHR ''=''])
       = Inr (scalar_quads body
              @ take 2 (eightBitChars_of [sextet c0, sextet c1, sextet c2, sextet 0]))"
proof -
  from scalar_loop_quads [OF assms(1,2), of "[0, 0, 0, 0]" "[c0, c1, c2, of_char CHR ''='']" "[]"]
  obtain six' where six': "length six' = 4"
    and "scalar_loop (body @ [c0, c1, c2, of_char CHR ''='']) 0 [0, 0, 0, 0] []
       = scalar_loop [c0, c1, c2, of_char CHR ''=''] 0 six' (scalar_quads body)"
    by auto
  then show ?thesis
    by (simp only: fallback_decode_scalar_loop scalar_tail_one_pad [OF six' assms(3-5)])
qed

lemma fallback_decode_two_pad:
  assumes "length body = 4 * k" and "list_all (\<lambda>c. c \<noteq> of_char CHR ''='') body"
    and "c0 \<noteq> of_char CHR ''=''" and "c1 \<noteq> of_char CHR ''=''"
  shows "fallback_decode (body @ [c0, c1, of_char CHR ''='', of_char CHR ''=''])
       = Inr (scalar_quads body
              @ take 1 (eightBitChars_of [sextet c0, sextet c1, sextet 0, sextet 0]))"
proof -
  from scalar_loop_quads [OF assms(1,2), of "[0, 0, 0, 0]"
      "[c0, c1, of_char CHR ''='', of_char CHR ''='']" "[]"]
  obtain six' where six': "length six' = 4"
    and "scalar_loop (body @ [c0, c1, of_char CHR ''='', of_char CHR ''='']) 0 [0, 0, 0, 0] []
       = scalar_loop [c0, c1, of_char CHR ''='', of_char CHR ''=''] 0 six' (scalar_quads body)"
    by auto
  then show ?thesis
    by (simp only: fallback_decode_scalar_loop scalar_tail_two_pad [OF six' assms(3-4)])
qed

lemma alphabet_not_pad:
  "list_all (\<lambda>c. c \<in> set base64_chars) xs \<Longrightarrow> list_all (\<lambda>c. c \<noteq> of_char CHR ''='') xs"
  using alphabet_char_values(3) by (induction xs) auto

lemma alphabet_sextet_unat:
  "c \<in> set base64_chars \<Longrightarrow> unat (sextet c) = string_find base64_chars c"
  by (auto simp: base64_chars_def bytes_of_def sextet_def string_find_def)

lemma pad_to_quads_whole: "length enc = 4 * k \<Longrightarrow> pad_to_quads enc = enc"
  by (simp add: pad_to_quads_def)

section \<open>What the vector decoders return on valid input\<close>

lemma size_no_pad: "3 * (4 * Suc k - 0) div 4 = 3 * Suc k"
  by simp

lemma size_one_pad: "3 * (4 * (k :: nat) + 4 - 1) div 4 = 3 * k + 2"
proof -
  have e: "3 * (4 * k + 4 - 1) = 1 + (3 * k + 2) * 4"
    by simp
  have "(1 + (3 * k + 2) * 4) div 4 = 3 * k + 2"
    by (rule div_mod_parts(1)) simp
  then show ?thesis
    by (simp only: e)
qed

lemma size_two_pad: "3 * (4 * (k :: nat) + 4 - 2) div 4 = 3 * k + 1"
proof -
  have e: "3 * (4 * k + 4 - 2) = 2 + (3 * k + 1) * 4"
    by simp
  have "(2 + (3 * k + 1) * 4) div 4 = 3 * k + 1"
    by (rule div_mod_parts(1)) simp
  then show ?thesis
    by (simp only: e)
qed

lemma trailing_padding_snoc:
  "c \<noteq> of_char CHR ''='' \<Longrightarrow> trailing_padding (xs @ [c]) = 0"
  by (simp add: trailing_padding_def)

lemma simd_decoded_no_pad:
  assumes "length enc = 4 * Suc k" and "list_all (\<lambda>c. c \<in> set base64_chars) enc"
  shows "simd_decoded enc = scalar_quads enc" and "trailing_padding enc = 0"
proof -
  have "enc \<noteq> []"
    using assms(1) by auto
  then have e: "enc = butlast enc @ [last enc]"
    by simp
  have "last enc \<in> set base64_chars"
    using assms(2) \<open>enc \<noteq> []\<close> by (simp add: list_all_iff)
  then have "last enc \<noteq> of_char CHR ''=''"
    by (rule alphabet_char_values(3))
  then have "trailing_padding (butlast enc @ [last enc]) = 0"
    by (rule trailing_padding_snoc)
  then show p: "trailing_padding enc = 0"
    using e by simp
  have l: "length (simd_quads enc) = 3 * Suc k"
    by (rule length_simd_quads [OF assms(1)])
  have "simd_decoded enc = take (3 * (4 * Suc k - 0) div 4) (simd_quads enc)"
    by (simp add: simd_decoded_def counted_padding_def p pad_to_quads_whole [OF assms(1)] assms(1))
  also have "\<dots> = simd_quads enc"
    unfolding size_no_pad using l by simp
  also have "\<dots> = scalar_quads enc"
    using assms by (rule simd_scalar_quads)
  finally show "simd_decoded enc = scalar_quads enc" .
qed

lemma simd_decoded_one_pad:
  assumes "length body = 4 * k" and "list_all (\<lambda>c. c \<in> set base64_chars) body"
    and "c0 \<in> set base64_chars" and "c1 \<in> set base64_chars" and "c2 \<in> set base64_chars"
    and "unat (sextet c2) mod 4 \<noteq> 3"
  shows "simd_decoded (body @ [c0, c1, c2, of_char CHR ''=''])
       = scalar_quads body @ take 2 (eightBitChars_of [sextet c0, sextet c1, sextet c2, s3])"
    and "trailing_padding (body @ [c0, c1, c2, of_char CHR ''='']) = 1"
proof -
  let ?enc = "body @ [c0, c1, c2, of_char CHR ''='']"
  have ne: "c2 \<noteq> of_char CHR ''=''"
    using assms(5) by (rule alphabet_char_values(3))
  show p: "trailing_padding ?enc = 1"
    using ne by (simp add: trailing_padding_def)
  have len: "length ?enc = 4 * Suc k"
    using assms(1) by simp
  have l: "length (simd_quads body) = 3 * k"
    by (rule length_simd_quads [OF assms(1)])
  have q: "simd_quads ?enc = simd_quads body
      @ quad_bytes (quad_value (sextet c0) (sextet c1) (sextet c2) 65)"
    using simd_quads_append [OF assms(1), of "[c0, c1, c2, of_char CHR ''='']"]
    by (simp add: alphabet_char_values(1) assms(3-5) lookup_value_pad [simplified])
  have l4: "length ?enc = 4 * k + 4"
    using assms(1) by simp
  have "simd_decoded ?enc = take (3 * (4 * k + 4 - 1) div 4) (simd_quads ?enc)"
    unfolding simd_decoded_def counted_padding_def p pad_to_quads_whole [OF len] l4
    by simp
  also have "\<dots> = simd_quads body
      @ take 2 (quad_bytes (quad_value (sextet c0) (sextet c1) (sextet c2) 65))"
    unfolding size_one_pad q using l by simp
  also have "take 2 (quad_bytes (quad_value (sextet c0) (sextet c1) (sextet c2) 65))
      = take 2 (eightBitChars_of [sextet c0, sextet c1, sextet c2, s3])"
    by (intro quad_bytes_one_pad alphabet_char_values(2) assms)
  also have "simd_quads body = scalar_quads body"
    using assms(1,2) by (rule simd_scalar_quads)
  finally show "simd_decoded ?enc
       = scalar_quads body @ take 2 (eightBitChars_of [sextet c0, sextet c1, sextet c2, s3])" .
qed

lemma simd_decoded_two_pad:
  assumes "length body = 4 * k" and "list_all (\<lambda>c. c \<in> set base64_chars) body"
    and "c0 \<in> set base64_chars" and "c1 \<in> set base64_chars"
    and "unat (sextet c1) mod 16 \<noteq> 15"
  shows "simd_decoded (body @ [c0, c1, of_char CHR ''='', of_char CHR ''=''])
       = scalar_quads body @ take 1 (eightBitChars_of [sextet c0, sextet c1, s2, s3])"
    and "trailing_padding (body @ [c0, c1, of_char CHR ''='', of_char CHR ''='']) = 2"
proof -
  let ?enc = "body @ [c0, c1, of_char CHR ''='', of_char CHR ''='']"
  have ne: "c1 \<noteq> of_char CHR ''=''"
    using assms(4) by (rule alphabet_char_values(3))
  show p: "trailing_padding ?enc = 2"
    using ne by (simp add: trailing_padding_def)
  have len: "length ?enc = 4 * Suc k"
    using assms(1) by simp
  have l: "length (simd_quads body) = 3 * k"
    by (rule length_simd_quads [OF assms(1)])
  have q: "simd_quads ?enc = simd_quads body
      @ quad_bytes (quad_value (sextet c0) (sextet c1) 65 65)"
    using simd_quads_append [OF assms(1), of "[c0, c1, of_char CHR ''='', of_char CHR ''='']"]
    by (simp add: alphabet_char_values(1) assms(3-4) lookup_value_pad [simplified])
  have l4: "length ?enc = 4 * k + 4"
    using assms(1) by simp
  have "simd_decoded ?enc = take (3 * (4 * k + 4 - 2) div 4) (simd_quads ?enc)"
    unfolding simd_decoded_def counted_padding_def p pad_to_quads_whole [OF len] l4
    by simp
  also have "\<dots> = simd_quads body
      @ take 1 (quad_bytes (quad_value (sextet c0) (sextet c1) 65 65))"
    unfolding size_two_pad q using l by simp
  also have "take 1 (quad_bytes (quad_value (sextet c0) (sextet c1) 65 65))
      = take 1 (eightBitChars_of [sextet c0, sextet c1, s2, s3])"
    by (intro quad_bytes_two_pad alphabet_char_values(2) assms)
  also have "simd_quads body = scalar_quads body"
    using assms(1,2) by (rule simd_scalar_quads)
  finally show "simd_decoded ?enc
       = scalar_quads body @ take 1 (eightBitChars_of [sextet c0, sextet c1, s2, s3])" .
qed

section \<open>Agreement of the scalar and the vector decoders\<close>

lemma last_four:
  assumes "length xs = 4 * Suc k"
  obtains body a b c d where "xs = body @ [a, b, c, d]" and "length body = 4 * k"
proof -
  define body where "body = take (4 * k) xs"
  define tl where "tl = drop (4 * k) xs"
  have "length tl = 4"
    using assms by (simp add: tl_def)
  then obtain a b c d where "tl = [a, b, c, d]"
    by (rule length_4)
  moreover have "xs = body @ tl"
    by (simp add: body_def tl_def)
  moreover have "length body = 4 * k"
    using assms by (simp add: body_def)
  ultimately show ?thesis
    using that by blast
qed

lemma trailing_padding_last_four:
  "trailing_padding (body @ [a, b, c, d])
     = (if d \<noteq> of_char CHR ''='' then 0
        else if c \<noteq> of_char CHR ''='' then 1
        else if b \<noteq> of_char CHR ''='' then 2
        else if a \<noteq> of_char CHR ''='' then 3
        else 4 + trailing_padding body)"
  by (simp add: trailing_padding_def)

lemma valid_decoders_closed:
  assumes "valid_base64 encoded" and "encoded \<noteq> []" and "spare_bits_not_all_set encoded"
  shows "fallback_decode encoded = Inr (simd_decoded encoded)"
proof -
  let ?pad = "of_char CHR ''='' :: byte"
  let ?alpha = "\<lambda>c. c \<in> set base64_chars"
  from assms(1) have m4: "length encoded mod 4 = 0"
    and p2: "trailing_padding encoded \<le> 2"
    and al: "list_all ?alpha (take (length encoded - trailing_padding encoded) encoded)"
    by (simp_all add: valid_base64_def)
  from m4 obtain j where "length encoded = 4 * j"
    by (auto simp: mod_eq_0_iff_dvd dvd_def)
  with assms(2) obtain k where n: "length encoded = 4 * Suc k"
    by (cases j) auto
  from n obtain body a b c d where enc: "encoded = body @ [a, b, c, d]"
    and body: "length body = 4 * k"
    by (rule last_four)
  note tp = trailing_padding_last_four [of body a b c d]
  consider (none) "d \<noteq> ?pad" | (one) "d = ?pad" "c \<noteq> ?pad"
    | (two) "d = ?pad" "c = ?pad" "b \<noteq> ?pad" | (more) "d = ?pad" "c = ?pad" "b = ?pad"
    by blast
  then show ?thesis
  proof cases
    case none
    then have p: "trailing_padding encoded = 0"
      unfolding enc tp by simp
    with al have all: "list_all ?alpha encoded"
      by simp
    show ?thesis
      unfolding simd_decoded_no_pad(1) [OF n all]
      by (rule fallback_decode_no_pad [OF n alphabet_not_pad [OF all]])
  next
    case one
    then have p: "trailing_padding encoded = 1"
      unfolding enc tp by simp
    have "take (length encoded - trailing_padding encoded) encoded = body @ [a, b, c]"
      unfolding p by (simp add: enc)
    with al have all: "list_all ?alpha body" "?alpha a" "?alpha b" "?alpha c"
      by simp_all
    have "encoded ! (length encoded - 1 - 1) = c"
      by (simp add: enc nth_append)
    with assms(3) have "string_find base64_chars c mod 4 \<noteq> 3"
      unfolding spare_bits_not_all_set_def p Let_def by simp
    then have sp: "unat (sextet c) mod 4 \<noteq> 3"
      by (simp add: alphabet_sextet_unat [OF all(4)])
    have nb: "list_all (\<lambda>c. c \<noteq> ?pad) body"
      by (rule alphabet_not_pad [OF all(1)])
    show ?thesis
      unfolding enc one(1)
        simd_decoded_one_pad(1) [OF body all sp, of "sextet 0"]
      by (rule fallback_decode_one_pad [OF body nb all(2-4) [THEN alphabet_char_values(3)]])
  next
    case two
    then have p: "trailing_padding encoded = 2"
      unfolding enc tp by simp
    have "take (length encoded - trailing_padding encoded) encoded = body @ [a, b]"
      unfolding p by (simp add: enc)
    with al have all: "list_all ?alpha body" "?alpha a" "?alpha b"
      by simp_all
    have "encoded ! (length encoded - 2 - 1) = b"
      by (simp add: enc nth_append)
    with assms(3) have "string_find base64_chars b mod 16 \<noteq> 15"
      unfolding spare_bits_not_all_set_def p Let_def by simp
    then have sp: "unat (sextet b) mod 16 \<noteq> 15"
      by (simp add: alphabet_sextet_unat [OF all(3)])
    have nb: "list_all (\<lambda>c. c \<noteq> ?pad) body"
      by (rule alphabet_not_pad [OF all(1)])
    show ?thesis
      unfolding enc two(1,2)
        simd_decoded_two_pad(1) [OF body all sp, of "sextet 0" "sextet 0"]
      by (rule fallback_decode_two_pad [OF body nb all(2-3) [THEN alphabet_char_values(3)]])
  next
    case more
    then have "3 \<le> trailing_padding encoded"
      unfolding enc tp by simp
    with p2 show ?thesis
      by simp
  qed
qed

section \<open>The three decoders on valid input\<close>

text \<open>
  C1 at the empty string and at \<open>AP==\<close>, both valid. On the empty string the search
  for the padding of the vector decoders starts at index \<open>encodedSize - 1\<close>, which
  wraps around to \<open>2 ^ 64 - 1\<close>, and reads outside the empty input vector, where the
  scalar decoder returns the empty sequence. On \<open>AP==\<close> the lookup of the vector
  decoders sends \<open>=\<close> to 65, which does not fit in six bits: its bit 6 is added to the
  character before it, here \<open>P\<close> = 15, whose four unused low bits are all set, and the
  carry reaches the decoded byte, which the cut of the output to its size does not drop.
  The vector decoders return the byte 1, the scalar decoder the byte 0.
\<close>

theorem decoders_disagree:
  "(valid_base64 (bytes_of '''')
    \<and> trailing_padding (bytes_of '''') = 0
    \<and> avx2_decode (bytes_of '''') = Inl OutOfBounds
    \<and> sse4_decode (bytes_of '''') = Inl OutOfBounds
    \<and> fallback_decode (bytes_of '''') = Inr [])
   \<and> (valid_base64 (bytes_of ''AP=='')
    \<and> trailing_padding (bytes_of ''AP=='') = 2
    \<and> avx2_decode (bytes_of ''AP=='') = Inr [1]
    \<and> sse4_decode (bytes_of ''AP=='') = Inr [1]
    \<and> fallback_decode (bytes_of ''AP=='') = Inr [0])"
proof
  show "valid_base64 (bytes_of '''')
    \<and> trailing_padding (bytes_of '''') = 0
    \<and> avx2_decode (bytes_of '''') = Inl OutOfBounds
    \<and> sse4_decode (bytes_of '''') = Inl OutOfBounds
    \<and> fallback_decode (bytes_of '''') = Inr []"
    by (simp add: bytes_of_def valid_base64_def trailing_padding_def avx2_decode_empty
        sse4_decode_empty fallback_decode_empty)
  show "valid_base64 (bytes_of ''AP=='')
    \<and> trailing_padding (bytes_of ''AP=='') = 2
    \<and> avx2_decode (bytes_of ''AP=='') = Inr [1]
    \<and> sse4_decode (bytes_of ''AP=='') = Inr [1]
    \<and> fallback_decode (bytes_of ''AP=='') = Inr [0]"
    by (simp add: avx2_decode_def sse4_decode_def fallback_decode_def fallback_flush_def
        eightBitChars_of_def eval_simps float_defs simd_defs scalar_defs
        valid_base64_def trailing_padding_def)
qed

text \<open>
  Everywhere else on valid input the three decoders agree: on a valid input that is not
  empty, short enough for the single-precision product to be exact (three times the
  length below \<open>2 ^ 24\<close>, which covers the lengths up to 2000), and whose last character
  before the padding does not have all of its unused low bits set (an encoder leaves
  them zero), they return the same sequence of bytes.
\<close>

theorem decoders_agree:
  assumes "valid_base64 encoded" and "encoded \<noteq> []" and "3 * length encoded < 2 ^ 24"
    and "spare_bits_not_all_set encoded"
  shows "\<exists>out. avx2_decode encoded = Inr out \<and> sse4_decode encoded = Inr out
           \<and> fallback_decode encoded = Inr out"
proof -
  from assms(1) have "length encoded mod 4 = 0"
    by (simp add: valid_base64_def)
  then obtain j where "length encoded = 4 * j"
    by (auto simp: mod_eq_0_iff_dvd dvd_def)
  with assms(2) have "4 \<le> length encoded"
    by (cases j) auto
  from vector_decoders_closed [OF this assms(3)] valid_decoders_closed [OF assms(1,2,4)]
  show ?thesis
    by simp
qed

theorem decoders_agree_witness:
  "valid_base64 (bytes_of ''QUJDRA=='') \<and> spare_bits_not_all_set (bytes_of ''QUJDRA=='')
   \<and> (\<exists>out. avx2_decode (bytes_of ''QUJDRA=='') = Inr out
         \<and> sse4_decode (bytes_of ''QUJDRA=='') = Inr out
         \<and> fallback_decode (bytes_of ''QUJDRA=='') = Inr out)"
  using decoders_agree [of "bytes_of ''QUJDRA==''"]
  by (simp add: valid_base64_def spare_bits_not_all_set_def trailing_padding_def
      bytes_of_def scalar_defs Let_def)

section \<open>The characters of the reference encoder\<close>

lemma or_disjoint:
  assumes "n < 2 ^ k"
  shows "m * 2 ^ k OR n = m * 2 ^ k + (n :: nat)"
proof -
  have "\<not> bit (push_bit k m) i \<or> \<not> bit n i" for i
  proof (cases "i < k")
    case True
    then show ?thesis
      by (simp add: bit_push_bit_iff)
  next
    case False
    then have "2 ^ k \<le> (2 :: nat) ^ i"
      by (intro power_increasing) simp_all
    with assms have "n < 2 ^ i"
      by (rule less_le_trans)
    then have "\<not> bit n i"
      by (simp add: bit_iff_odd)
    then show ?thesis ..
  qed
  then have "push_bit k m + n = push_bit k m OR n"
    by (rule disjunctive_add)
  then show ?thesis
    by (simp add: push_bit_eq_mult)
qed

lemma and_63: "(x :: nat) AND 63 = x mod 64"
proof -
  have "(63 :: nat) = mask 6"
    by (simp add: mask_eq_exp_minus_1)
  then show ?thesis
    by (simp only: take_bit_eq_mask [symmetric] take_bit_eq_mod) simp
qed

lemma enc0: "unat (drop_bit 2 (a :: byte)) = unat a div 4"
  unfolding unat_drop_bit_eq by (simp add: drop_bit_eq_div)

lemma enc_hi1: "unat (push_bit 4 ((a :: byte) AND 0x3)) = unat a mod 4 * 16"
proof -
  have "unat a mod 4 < 4"
    by simp
  then have bound: "unat a mod 4 * 16 < 2 ^ 8"
    by simp
  have "unat (push_bit 4 (a AND 0x3)) = take_bit LENGTH(8) (push_bit 4 (unat (a AND 0x3)))"
    by (rule unsigned_push_bit_eq)
  also have "unat (a AND 0x3) = unat a mod 4"
    by (simp add: unsigned_and_eq and_3)
  also have "push_bit 4 (unat a mod 4) = unat a mod 4 * 16"
    by (simp add: push_bit_eq_mult)
  also have "take_bit LENGTH(8) (unat a mod 4 * 16) = unat a mod 4 * 16"
    using bound by (simp add: take_bit_nat_eq_self)
  finally show ?thesis .
qed

lemma enc_hi2: "unat (push_bit 2 ((b :: byte) AND 0xf)) = unat b mod 16 * 4"
proof -
  have "unat b mod 16 < 16"
    by simp
  then have bound: "unat b mod 16 * 4 < 2 ^ 8"
    by simp
  have "unat (push_bit 2 (b AND 0xf)) = take_bit LENGTH(8) (push_bit 2 (unat (b AND 0xf)))"
    by (rule unsigned_push_bit_eq)
  also have "unat (b AND 0xf) = unat b mod 16"
    by (simp add: unsigned_and_eq and_15)
  also have "push_bit 2 (unat b mod 16) = unat b mod 16 * 4"
    by (simp add: push_bit_eq_mult)
  also have "take_bit LENGTH(8) (unat b mod 16 * 4) = unat b mod 16 * 4"
    using bound by (simp add: take_bit_nat_eq_self)
  finally show ?thesis .
qed

lemma enc1: "unat (push_bit 4 ((a :: byte) AND 0x3) OR drop_bit 4 b) = unat a mod 4 * 16 + unat b div 16"
proof -
  have "unat b div 16 < 2 ^ 4"
    using unat_byte_bound [of b] by simp
  from or_disjoint [OF this, of "unat a mod 4"] show ?thesis
    unfolding unsigned_or_eq enc_hi1 unat_drop_bit_eq by (simp add: drop_bit_eq_div)
qed

lemma enc2: "unat (push_bit 2 ((b :: byte) AND 0xf) OR drop_bit 6 c) = unat b mod 16 * 4 + unat c div 64"
proof -
  have "unat c div 64 < 2 ^ 2"
    using unat_byte_bound [of c] by simp
  from or_disjoint [OF this, of "unat b mod 16"] show ?thesis
    unfolding unsigned_or_eq enc_hi2 unat_drop_bit_eq by (simp add: drop_bit_eq_div)
qed

lemma enc3: "unat ((c :: byte) AND 0x3f) = unat c mod 64"
  by (simp add: unsigned_and_eq and_63)

lemma enc_bounds:
  "unat (drop_bit 2 (a :: byte)) < 64"
  "unat (push_bit 4 ((a :: byte) AND 0x3)) < 64"
  "unat (push_bit 4 ((a :: byte) AND 0x3) OR drop_bit 4 b) < 64"
  "unat (push_bit 2 ((b :: byte) AND 0xf)) < 64"
  "unat (push_bit 2 ((b :: byte) AND 0xf) OR drop_bit 6 c) < 64"
  "unat ((c :: byte) AND 0x3f) < 64"
proof -
  have a: "unat a mod 4 < 4" and b: "unat b mod 16 < 16"
    by simp_all
  have d: "unat a div 4 < 64" "unat b div 16 < 16" "unat c div 64 < 4"
    using unat_byte_bound [of a] unat_byte_bound [of b] unat_byte_bound [of c] by simp_all
  show "unat (drop_bit 2 a) < 64"
    unfolding enc0 by (rule d)
  show "unat (push_bit 4 (a AND 0x3)) < 64"
    unfolding enc_hi1 using a by simp
  show "unat (push_bit 4 (a AND 0x3) OR drop_bit 4 b) < 64"
    unfolding enc1 using a d(2) by simp
  show "unat (push_bit 2 (b AND 0xf)) < 64"
    unfolding enc_hi2 using b by simp
  show "unat (push_bit 2 (b AND 0xf) OR drop_bit 6 c) < 64"
    unfolding enc2 using b d(3) by simp
  show "unat (c AND 0x3f) < 64"
    unfolding enc3 by simp
qed

lemma group_arith:
  assumes "y < 256" and "z < 256"
  shows "(x :: nat) div 4 * 4 + (x mod 4 * 16 + y div 16) div 16 mod 4 = x"
    and "(x mod 4 * 16 + y div 16) mod 16 * 16 + (y mod 16 * 4 + z div 64) div 4 mod 16 = y"
    and "(y mod 16 * 4 + z div 64) mod 4 * 64 + z mod 64 = z"
proof -
  from assms have y: "y div 16 < 16" and z: "z div 64 < 4"
    by simp_all
  have "(x mod 4 * 16 + y div 16) div 16 = x mod 4"
    using y by simp
  then show "x div 4 * 4 + (x mod 4 * 16 + y div 16) div 16 mod 4 = x"
    by simp
  have "(x mod 4 * 16 + y div 16) mod 16 = y div 16"
    using y by simp
  moreover have "(y mod 16 * 4 + z div 64) div 4 = y mod 16"
    using z by simp
  ultimately show "(x mod 4 * 16 + y div 16) mod 16 * 16
      + (y mod 16 * 4 + z div 64) div 4 mod 16 = y"
    by simp
  have "(y mod 16 * 4 + z div 64) mod 4 = z div 64"
    using z by simp
  then show "(y mod 16 * 4 + z div 64) mod 4 * 64 + z mod 64 = z"
    by simp
qed


lemma find_from_nth:
  "distinct xs \<Longrightarrow> n < length xs \<Longrightarrow> find_from xs (xs ! n) k = k + n"
proof (induction xs arbitrary: n k)
  case Nil
  then show ?case by simp
next
  case (Cons x xs)
  show ?case
  proof (cases n)
    case 0
    then show ?thesis by simp
  next
    case (Suc n')
    with Cons.prems have "xs ! n' \<in> set xs" and "x \<notin> set xs"
      by simp_all
    then have "x \<noteq> xs ! n'"
      by auto
    with Cons.IH [of n' "k + 1"] Cons.prems Suc show ?thesis
      by simp
  qed
qed

lemma distinct_base64_chars: "distinct base64_chars"
  by (simp add: base64_chars_def bytes_of_def)

lemma length_base64_chars: "length base64_chars = 64"
  by (simp add: base64_chars_def bytes_of_def)

lemma alphabet_char_sextet:
  assumes "unat v < 64"
  shows "alphabet_char v \<in> set base64_chars" and "sextet (alphabet_char v) = v"
proof -
  from assms have n: "unat v < length base64_chars"
    by (simp only: length_base64_chars)
  then show "alphabet_char v \<in> set base64_chars"
    unfolding alphabet_char_def by (rule nth_mem)
  have "string_find base64_chars (base64_chars ! unat v) = 0 + unat v"
    unfolding string_find_def by (rule find_from_nth [OF distinct_base64_chars n])
  then show "sextet (alphabet_char v) = v"
    by (simp add: sextet_def alphabet_char_def)
qed

section \<open>Decoding the groups of the reference encoder\<close>

lemma group_decode:
  "eightBitChars_of
     [sextet (alphabet_char (drop_bit 2 a)),
      sextet (alphabet_char (push_bit 4 (a AND 0x3) OR drop_bit 4 b)),
      sextet (alphabet_char (push_bit 2 (b AND 0xf) OR drop_bit 6 c)),
      sextet (alphabet_char (c AND 0x3f))] = [a, b, c]"
proof -
  note g = group_arith(1,2) [OF unat_byte_bound [of b] unat_byte_bound [of c], of "unat a"]
    group_arith(3) [OF unat_byte_bound [of b] unat_byte_bound [of c]]
  show ?thesis
    unfolding alphabet_char_sextet(2) [OF enc_bounds(1)] alphabet_char_sextet(2) [OF enc_bounds(3)]
      alphabet_char_sextet(2) [OF enc_bounds(5)] alphabet_char_sextet(2) [OF enc_bounds(6)]
      eightBitChars_nat enc0 enc1 enc2 enc3 g
    by simp
qed

lemma group_decode_two:
  "take 2 (eightBitChars_of
     [sextet (alphabet_char (drop_bit 2 a)),
      sextet (alphabet_char (push_bit 4 (a AND 0x3) OR drop_bit 4 b)),
      sextet (alphabet_char (push_bit 2 (b AND 0xf))),
      s3]) = [a, b]"
proof -
  have "(0 :: nat) < 256"
    by simp
  note g = group_arith(1,2) [OF unat_byte_bound [of b] this, of "unat a"]
  show ?thesis
    unfolding alphabet_char_sextet(2) [OF enc_bounds(1)] alphabet_char_sextet(2) [OF enc_bounds(3)]
      alphabet_char_sextet(2) [OF enc_bounds(4)]
      eightBitChars_nat enc0 enc1 enc_hi2
    using g(1,2) by simp
qed

lemma group_decode_one:
  "take 1 (eightBitChars_of
     [sextet (alphabet_char (drop_bit 2 a)),
      sextet (alphabet_char (push_bit 4 (a AND 0x3))),
      s2, s3]) = [a]"
proof -
  have "(0 :: nat) < 256"
    by simp
  note g = group_arith(1) [OF this this, of "unat a"]
  show ?thesis
    unfolding alphabet_char_sextet(2) [OF enc_bounds(1)] alphabet_char_sextet(2) [OF enc_bounds(2)]
      eightBitChars_nat enc0 enc_hi1
    using g by simp
qed

lemma reference_encode_whole:
  assumes "length bs = 3 * m"
  shows "length (reference_encode bs) = 4 * m"
    and "list_all (\<lambda>c. c \<in> set base64_chars) (reference_encode bs)"
    and "scalar_quads (reference_encode bs) = bs"
    and "reference_encode (bs @ rest) = reference_encode bs @ reference_encode rest"
  using assms
proof (induction m arbitrary: bs)
  case 0
  {
    case 1 then show ?case by simp
  next
    case 2 then show ?case by simp
  next
    case 3 then show ?case by simp
  next
    case 4 then show ?case by simp
  }
next
  case (Suc m)
  {
    fix bs :: "byte list"
    assume "length bs = 3 * Suc m"
    then have "length bs = Suc (Suc (Suc (3 * m)))"
      by simp
    then obtain a b c bs' where bs: "bs = a # b # c # bs'" and len: "length bs' = 3 * m"
      by (auto simp: length_Suc_conv)
    have "bs = a # b # c # bs' \<and> length bs' = 3 * m"
      using bs len by simp
    then have "\<exists>a b c bs'. bs = a # b # c # bs' \<and> length bs' = 3 * m"
      by blast
  }
  note split = this
  {
    case 1
    from split [OF 1] obtain a b c bs' where bs: "bs = a # b # c # bs'" and len: "length bs' = 3 * m"
      by blast
    show ?case
      unfolding bs using Suc.IH(1) [OF len] by simp
  next
    case 2
    from split [OF 2] obtain a b c bs' where bs: "bs = a # b # c # bs'" and len: "length bs' = 3 * m"
      by blast
    show ?case
      unfolding bs using Suc.IH(2) [OF len]
      by (simp add: alphabet_char_sextet(1) [OF enc_bounds(1)]
          alphabet_char_sextet(1) [OF enc_bounds(3)] alphabet_char_sextet(1) [OF enc_bounds(5)]
          alphabet_char_sextet(1) [OF enc_bounds(6)] del: push_bit_and)
  next
    case 3
    from split [OF 3] obtain a b c bs' where bs: "bs = a # b # c # bs'" and len: "length bs' = 3 * m"
      by blast
    show ?case
      unfolding bs reference_encode.simps append_Cons append_Nil scalar_quads.simps
        group_decode Suc.IH(3) [OF len]
      by simp
  next
    case 4
    from split [OF 4] obtain a b c bs' where bs: "bs = a # b # c # bs'" and len: "length bs' = 3 * m"
      by blast
    show ?case
      unfolding bs using Suc.IH(4) [OF len] by simp
  }
qed

section \<open>The round trip, shape by shape\<close>

lemma round_trip_whole:
  assumes "length bs = 3 * Suc k" and "3 * length (reference_encode bs) < 2 ^ 24"
  shows "avx2_decode (reference_encode bs) = Inr bs"
    and "sse4_decode (reference_encode bs) = Inr bs"
    and "fallback_decode (reference_encode bs) = Inr bs"
proof -
  note w = reference_encode_whole [OF assms(1)]
  have four: "4 \<le> length (reference_encode bs)"
    by (simp add: w(1))
  have "simd_decoded (reference_encode bs) = bs"
    unfolding simd_decoded_no_pad(1) [OF w(1) w(2)] by (rule w(3))
  with vector_decoders_closed [OF four assms(2)]
  show "avx2_decode (reference_encode bs) = Inr bs" "sse4_decode (reference_encode bs) = Inr bs"
    by simp_all
  show "fallback_decode (reference_encode bs) = Inr bs"
    unfolding fallback_decode_no_pad [OF w(1) alphabet_not_pad [OF w(2)]] w(3) ..
qed

lemma round_trip_one:
  assumes "length bs = 3 * m" and "3 * length (reference_encode (bs @ [x])) < 2 ^ 24"
  shows "avx2_decode (reference_encode (bs @ [x])) = Inr (bs @ [x])"
    and "sse4_decode (reference_encode (bs @ [x])) = Inr (bs @ [x])"
    and "fallback_decode (reference_encode (bs @ [x])) = Inr (bs @ [x])"
proof -
  note w = reference_encode_whole [OF assms(1)]
  define body where "body = reference_encode bs"
  define c0 where "c0 = alphabet_char (drop_bit 2 x)"
  define c1 where "c1 = alphabet_char (push_bit 4 (x AND 0x3))"
  let ?pad = "of_char CHR ''='' :: byte"
  have enc: "reference_encode (bs @ [x]) = body @ [c0, c1, ?pad, ?pad]"
    unfolding w(4) body_def c0_def c1_def reference_encode.simps ..
  have c: "c0 \<in> set base64_chars" "c1 \<in> set base64_chars"
    unfolding c0_def c1_def
    by (rule alphabet_char_sextet(1) [OF enc_bounds(1)], rule alphabet_char_sextet(1) [OF enc_bounds(2)])
  have s1: "unat (sextet c1) = unat x mod 4 * 16"
    unfolding c1_def alphabet_char_sextet(2) [OF enc_bounds(2)] by (rule enc_hi1)
  have sp: "unat (sextet c1) mod 16 \<noteq> 15"
    unfolding s1 by simp
  have len: "length body = 4 * m" and al: "list_all (\<lambda>c. c \<in> set base64_chars) body"
    and sq: "scalar_quads body = bs"
    unfolding body_def by (rule w(1), rule w(2), rule w(3))
  have tl: "take 1 (eightBitChars_of [sextet c0, sextet c1, sextet 0, sextet 0]) = [x]"
    unfolding c0_def c1_def by (rule group_decode_one)
  have four: "4 \<le> length (reference_encode (bs @ [x]))"
    unfolding enc by simp
  have "simd_decoded (reference_encode (bs @ [x])) = bs @ [x]"
    unfolding enc simd_decoded_two_pad(1) [OF len al c sp, of "sextet 0" "sextet 0"] sq tl ..
  with vector_decoders_closed [OF four assms(2)]
  show "avx2_decode (reference_encode (bs @ [x])) = Inr (bs @ [x])"
    "sse4_decode (reference_encode (bs @ [x])) = Inr (bs @ [x])"
    by simp_all
  show "fallback_decode (reference_encode (bs @ [x])) = Inr (bs @ [x])"
    unfolding enc
      fallback_decode_two_pad [OF len alphabet_not_pad [OF al] c [THEN alphabet_char_values(3)]]
      sq tl ..
qed

lemma round_trip_two:
  assumes "length bs = 3 * m" and "3 * length (reference_encode (bs @ [x, y])) < 2 ^ 24"
  shows "avx2_decode (reference_encode (bs @ [x, y])) = Inr (bs @ [x, y])"
    and "sse4_decode (reference_encode (bs @ [x, y])) = Inr (bs @ [x, y])"
    and "fallback_decode (reference_encode (bs @ [x, y])) = Inr (bs @ [x, y])"
proof -
  note w = reference_encode_whole [OF assms(1)]
  define body where "body = reference_encode bs"
  define c0 where "c0 = alphabet_char (drop_bit 2 x)"
  define c1 where "c1 = alphabet_char (push_bit 4 (x AND 0x3) OR drop_bit 4 y)"
  define c2 where "c2 = alphabet_char (push_bit 2 (y AND 0xf))"
  let ?pad = "of_char CHR ''='' :: byte"
  have enc: "reference_encode (bs @ [x, y]) = body @ [c0, c1, c2, ?pad]"
    unfolding w(4) body_def c0_def c1_def c2_def reference_encode.simps ..
  have c: "c0 \<in> set base64_chars" "c1 \<in> set base64_chars" "c2 \<in> set base64_chars"
    unfolding c0_def c1_def c2_def
    by (rule alphabet_char_sextet(1) [OF enc_bounds(1)], rule alphabet_char_sextet(1) [OF enc_bounds(3)],
        rule alphabet_char_sextet(1) [OF enc_bounds(4)])
  have s2: "unat (sextet c2) = unat y mod 16 * 4"
    unfolding c2_def alphabet_char_sextet(2) [OF enc_bounds(4)] by (rule enc_hi2)
  have sp: "unat (sextet c2) mod 4 \<noteq> 3"
    unfolding s2 by simp
  have len: "length body = 4 * m" and al: "list_all (\<lambda>c. c \<in> set base64_chars) body"
    and sq: "scalar_quads body = bs"
    unfolding body_def by (rule w(1), rule w(2), rule w(3))
  have tl: "take 2 (eightBitChars_of [sextet c0, sextet c1, sextet c2, sextet 0]) = [x, y]"
    unfolding c0_def c1_def c2_def by (rule group_decode_two)
  have four: "4 \<le> length (reference_encode (bs @ [x, y]))"
    unfolding enc by simp
  have "simd_decoded (reference_encode (bs @ [x, y])) = bs @ [x, y]"
    unfolding enc simd_decoded_one_pad(1) [OF len al c sp, of "sextet 0"] sq tl ..
  with vector_decoders_closed [OF four assms(2)]
  show "avx2_decode (reference_encode (bs @ [x, y])) = Inr (bs @ [x, y])"
    "sse4_decode (reference_encode (bs @ [x, y])) = Inr (bs @ [x, y])"
    by simp_all
  show "fallback_decode (reference_encode (bs @ [x, y])) = Inr (bs @ [x, y])"
    unfolding enc
      fallback_decode_one_pad [OF len alphabet_not_pad [OF al] c [THEN alphabet_char_values(3)]]
      sq tl ..
qed

section \<open>The round trip through the reference encoder\<close>

lemma length_reference_encode:
  "length (reference_encode b) = 4 * ((length b + 2) div 3)"
proof (induction b rule: reference_encode.induct)
  case (4 a b c bs)
  have "(length bs + 2 + 3) div 3 = (length bs + 2) div 3 + 1"
    by (rule div_add_self2) simp
  moreover have "length (a # b # c # bs) + 2 = length bs + 2 + 3"
    by simp
  ultimately have "(length (a # b # c # bs) + 2) div 3 = (length bs + 2) div 3 + 1"
    by (simp only:)
  with 4 show ?case
    by (simp only: reference_encode.simps length_append) simp
qed simp_all

text \<open>
  Apart from the empty sequence, the round trip through the reference encoder holds on
  every machine: whichever decoder \<open>decode\<close> dispatches to returns the bytes that were
  encoded. The bound keeps the single-precision size exact; it covers the lengths up to
  4096.
\<close>

lemma decode_encode_nonempty:
  assumes "b \<noteq> []" and "length b + 2 < 2 ^ 22"
  shows "decode avx2 sse4 (reference_encode b) = Inr b"
proof -
  define m where "m = length b div 3"
  define bs where "bs = take (3 * m) b"
  define rest where "rest = drop (3 * m) b"
  have b: "b = bs @ rest"
    by (simp add: bs_def rest_def)
  have "3 * m \<le> length b"
    by (simp add: m_def)
  then have bs: "length bs = 3 * m"
    by (simp add: bs_def)
  have "length rest = length b - 3 * m"
    by (simp add: rest_def)
  also have "\<dots> = length b mod 3"
    unfolding m_def by (simp add: minus_mult_div_eq_mod)
  finally have "length rest < 3"
    by simp
  then consider "rest = []" | x where "rest = [x]" | x y where "rest = [x, y]"
    by (cases rest rule: reference_encode.cases) auto
  note shape = this
  have "3 * ((length b + 2) div 3) \<le> length b + 2"
    by simp
  then have "3 * (4 * ((length b + 2) div 3)) \<le> 4 * (length b + 2)"
    by simp
  also have "\<dots> < 2 ^ 24"
    using assms(2) by simp
  finally have size: "3 * length (reference_encode b) < 2 ^ 24"
    by (simp only: length_reference_encode)
  have "avx2_decode (reference_encode b) = Inr b \<and> sse4_decode (reference_encode b) = Inr b
      \<and> fallback_decode (reference_encode b) = Inr b"
  proof (cases rule: shape)
    case 1
    with b have whole: "b = bs"
      by simp
    with assms(1) bs obtain k where "m = Suc k"
      by (cases m) auto
    with bs whole have "length b = 3 * Suc k"
      by simp
    from round_trip_whole [OF this size] show ?thesis
      by simp
  next
    case (2 x)
    from round_trip_one [OF bs, of x] size show ?thesis
      unfolding b 2 by simp
  next
    case (3 x y)
    from round_trip_two [OF bs, of x y] size show ?thesis
      unfolding b 3 by simp
  qed
  then show ?thesis
    by (simp add: decode_def)
qed

section \<open>Where the vector decoders read out of bounds\<close>

lemma padding_loop_short:
  assumes "length (enc @ zs) < 2 ^ 64"
  shows "length enc = 1 \<Longrightarrow>
           padding_loop (enc @ zs) (length enc) (size_t_sub (length enc) 1) 0 = Inr 0"
    and "length enc = 2 \<Longrightarrow>
           padding_loop (enc @ zs) (length enc) (size_t_sub (length enc) 1) 0 = Inr 0"
    and "length enc = 3 \<Longrightarrow>
           padding_loop (enc @ zs) (length enc) (size_t_sub (length enc) 1) 0
             = (if enc = bytes_of ''==='' then Inl OutOfBounds else Inr (trailing_padding enc))"
proof -
  show "padding_loop (enc @ zs) (length enc) (size_t_sub (length enc) 1) 0 = Inr 0"
    if "length enc = 1"
    unfolding that by (rule padding_loop_stop) (simp add: size_defs)
  show "padding_loop (enc @ zs) (length enc) (size_t_sub (length enc) 1) 0 = Inr 0"
    if "length enc = 2"
    unfolding that by (rule padding_loop_stop) (simp add: size_defs)
  show "padding_loop (enc @ zs) (length enc) (size_t_sub (length enc) 1) 0
      = (if enc = bytes_of ''==='' then Inl OutOfBounds else Inr (trailing_padding enc))"
    if "length enc = 3"
  proof -
    from that obtain a b c where enc: "enc = [a, b, c]"
      by (auto simp: length_Suc_conv numeral_3_eq_3)
    let ?input = "[a, b, c] @ zs"
    have lt: "length ?input < 2 ^ 64"
      using assms by (simp add: enc)
    have s: "size_t_sub 3 3 = 0" "size_t_sub 3 1 = 2" "size_t_sub 2 1 = 1" "size_t_sub 1 1 = 0"
      "size_t_sub 0 1 = 2 ^ 64 - 1"
      by (simp_all add: size_defs)
    have at: "vector_at ?input 2 = Inr c" "vector_at ?input 1 = Inr b" "vector_at ?input 0 = Inr a"
      "vector_at ?input (2 ^ 64 - 1) = Inl OutOfBounds"
      using lt by (simp_all add: vector_at_def)
    have p3: "padding_loop ?input 3 (2 ^ 64 - 1) p = Inl OutOfBounds" for p
      by (subst padding_loop.simps) (simp only: s at, simp)
    have p0: "padding_loop ?input 3 0 p
        = (if a = of_char CHR ''='' then Inl OutOfBounds else Inr p)" for p
      by (subst padding_loop.simps) (simp only: s at p3, simp)
    have p1: "padding_loop ?input 3 1 p
        = (if b = of_char CHR ''='' then if a = of_char CHR ''='' then Inl OutOfBounds else Inr (p + 1)
           else Inr p)" for p
      by (subst padding_loop.simps) (simp only: s at p0, simp)
    have p2: "padding_loop ?input 3 2 p
        = (if c = of_char CHR ''='' then
             if b = of_char CHR ''='' then
               if a = of_char CHR ''='' then Inl OutOfBounds else Inr (p + 2)
             else Inr (p + 1)
           else Inr p)" for p
      by (subst padding_loop.simps) (simp only: s at p1, simp)
    have l3: "length [a, b, c] = 3"
      by simp
    have "padding_loop ([a, b, c] @ zs) (length [a, b, c]) (size_t_sub (length [a, b, c]) 1) 0
        = padding_loop ?input 3 2 0"
      unfolding l3 s(2) ..
    also have "\<dots> = (if [a, b, c] = bytes_of ''==='' then Inl OutOfBounds
                       else Inr (trailing_padding [a, b, c]))"
      unfolding p2 by (simp add: trailing_padding_def bytes_of_def)
    finally show ?thesis
      unfolding enc .
  qed
qed

lemma avx2_decode_padding:
  assumes "length enc + 32 < 2 ^ 64"
    and "padding_loop (enc @ replicate ((length enc + 31) div 32 * 32 - length enc) 0)
           (length enc) (size_t_sub (length enc) 1) 0 = r"
  shows "avx2_decode enc = Inl OutOfBounds \<longleftrightarrow> r = Inl OutOfBounds"
proof -
  let ?n = "length enc"
  let ?k = "(?n + 31) div 32"
  let ?input = "enc @ replicate (?k * 32 - ?n) 0"
  have sz: "size_t_sub (size_t_add ?n 32) 1 AND size_t_of_int (- 32) = ?k * 32"
    using assms(1) by (rule padded_size32)
  have le: "?n \<le> ?k * 32"
    by simp
  have len: "length ?input = 32 * ?k"
    using le by simp
  have lt: "length ?input < 2 ^ 64"
    using assms(1) unfolding len by simp
  have mc: "memcpy (replicate (?k * 32) 0) enc = Inr ?input"
    using le by (simp add: memcpy_def)
  have lp: "avx2_loop ?input 0 0 (replicate (length ?input) 0)
      = Inr (simd_quads ?input @ replicate (8 * ?k) 0)"
    using len lt by (rule avx2_loop_result)
  show ?thesis
    unfolding avx2_decode_def Let_def sz mc sum.case assms(2) lp
    by (cases r) simp_all
qed

lemma sse4_decode_padding:
  assumes "length enc + 16 < 2 ^ 64"
    and "padding_loop (enc @ replicate ((length enc + 15) div 16 * 16 - length enc) 0)
           (length enc) (size_t_sub (length enc) 1) 0 = r"
  shows "sse4_decode enc = Inl OutOfBounds \<longleftrightarrow> r = Inl OutOfBounds"
proof -
  let ?n = "length enc"
  let ?k = "(?n + 15) div 16"
  let ?input = "enc @ replicate (?k * 16 - ?n) 0"
  have sz: "size_t_sub (size_t_add ?n 16) 1 AND size_t_of_int (- 16) = ?k * 16"
    using assms(1) by (rule padded_size16)
  have le: "?n \<le> ?k * 16"
    by simp
  have len: "length ?input = 16 * ?k"
    using le by simp
  have lt: "length ?input < 2 ^ 64"
    using assms(1) unfolding len by simp
  have mc: "memcpy (replicate (?k * 16) 0) enc = Inr ?input"
    using le by (simp add: memcpy_def)
  have lp: "sse4_loop ?input 0 0 (replicate (length ?input) 0)
      = Inr (simd_quads ?input @ replicate (4 * ?k) 0)"
    using len lt by (rule sse4_loop_result)
  show ?thesis
    unfolding sse4_decode_def Let_def sz mc sum.case assms(2) lp
    by (cases r) simp_all
qed

lemma padding_loop_faults:
  assumes "enc \<noteq> []" and "length (enc @ zs) < 2 ^ 64"
  shows "padding_loop (enc @ zs) (length enc) (size_t_sub (length enc) 1) 0 = Inl OutOfBounds
     \<longleftrightarrow> enc = bytes_of ''===''"
proof -
  from assms(1) have "0 < length enc"
    by simp
  then consider "length enc = 1" | "length enc = 2" | "length enc = 3" | "4 \<le> length enc"
    by linarith
  then show ?thesis
  proof cases
    case 1
    then have "enc \<noteq> bytes_of ''===''"
      by (auto simp: bytes_of_def)
    then show ?thesis
      unfolding padding_loop_short(1) [OF assms(2) 1] by simp
  next
    case 2
    then have "enc \<noteq> bytes_of ''===''"
      by (auto simp: bytes_of_def)
    then show ?thesis
      unfolding padding_loop_short(2) [OF assms(2) 2] by simp
  next
    case 3
    show ?thesis
      unfolding padding_loop_short(3) [OF assms(2) 3] by simp
  next
    case 4
    then have "enc \<noteq> bytes_of ''===''"
      by (auto simp: bytes_of_def)
    then show ?thesis
      unfolding padding_loop_count [OF 4 assms(2)] by simp
  qed
qed

text \<open>
  From four characters on the search for the padding stays inside the input, and so do
  the loads and the stores of the loop over the blocks. Among the shorter strings that
  are not empty, \<open>===\<close> is the only one on which a vector decoder reads out of bounds.
\<close>

lemma vector_decoders_fault:
  assumes "enc \<noteq> []" and "length enc + 32 < 2 ^ 64"
  shows "avx2_decode enc = Inl OutOfBounds \<longleftrightarrow> enc = bytes_of ''===''"
    and "sse4_decode enc = Inl OutOfBounds \<longleftrightarrow> enc = bytes_of ''===''"
proof -
  let ?n = "length enc"
  have "length (enc @ replicate ((?n + 31) div 32 * 32 - ?n) 0) = (?n + 31) div 32 * 32"
    by simp
  also have "\<dots> < 2 ^ 64"
    using assms(2) by simp
  finally have a: "length (enc @ replicate ((?n + 31) div 32 * 32 - ?n) 0) < 2 ^ 64" .
  have "length (enc @ replicate ((?n + 15) div 16 * 16 - ?n) 0) = (?n + 15) div 16 * 16"
    by simp
  also have "\<dots> < 2 ^ 64"
    using assms(2) by simp
  finally have s: "length (enc @ replicate ((?n + 15) div 16 * 16 - ?n) 0) < 2 ^ 64" .
  from assms(2) have s16: "?n + 16 < 2 ^ 64"
    by simp
  show "avx2_decode enc = Inl OutOfBounds \<longleftrightarrow> enc = bytes_of ''===''"
    unfolding avx2_decode_padding [OF assms(2) refl] by (rule padding_loop_faults [OF assms(1) a])
  show "sse4_decode enc = Inl OutOfBounds \<longleftrightarrow> enc = bytes_of ''===''"
    unfolding sse4_decode_padding [OF s16 refl] by (rule padding_loop_faults [OF assms(1) s])
qed

end
